theory Spec2Isabelle
  imports Main "HOL-Library.Sublist"
begin

section \<open>JavaScript strings\<close>

text \<open>
  A JavaScript string is modelled as a \<^typ>\<open>string\<close>, one \<^typ>\<open>char\<close> per code unit.
  A \<^typ>\<open>char\<close> has eight bits, so the model covers the strings whose code units are
  below 256 (Latin-1); on these the functions below are what the JavaScript built-ins
  compute. The character U+00BB (right-pointing double angle quotation mark) of the
  next-link test is \<open>CHR 0xBB\<close>.
\<close>

definition digit :: "nat \<Rightarrow> char" where
  "digit d = char_of (48 + d)"

text \<open>The decimal rendering of a number in a template literal, \<^verbatim>\<open>`${n}`\<close>.\<close>

fun show_nat :: "nat \<Rightarrow> string" where
  "show_nat n = (if n < 10 then [digit n] else show_nat (n div 10) @ [digit (n mod 10)])"

declare show_nat.simps [simp del]

text \<open>\<^verbatim>\<open>s.includes(sub)\<close>: \<open>sub\<close> occurs in \<open>s\<close> as a contiguous substring.\<close>

fun str_includes :: "string \<Rightarrow> string \<Rightarrow> bool" where
  "str_includes [] sub = (sub = [])"
| "str_includes (c # cs) sub = (prefix sub (c # cs) \<or> str_includes cs sub)"

text \<open>\<^verbatim>\<open>s.startsWith(p)\<close>\<close>

definition startsWith :: "string \<Rightarrow> string \<Rightarrow> bool" where
  "startsWith s p = prefix p s"

text \<open>White space and line terminators that \<^verbatim>\<open>trim\<close> removes, among the code units below 256.\<close>

definition isWhiteSpace :: "char \<Rightarrow> bool" where
  "isWhiteSpace c = ((of_char c :: nat) \<in> {9, 10, 11, 12, 13, 32, 160})"

definition trim :: "string \<Rightarrow> string" where
  "trim s = rev (dropWhile isWhiteSpace (rev (dropWhile isWhiteSpace s)))"

text \<open>
  \<^verbatim>\<open>toLowerCase\<close> on code units below 256: A-Z and the Latin-1 capitals U+00C0..U+00DE
  (without the multiplication sign U+00D7) move up by 32, everything else stays.
\<close>

definition lowerChar :: "char \<Rightarrow> char" where
  "lowerChar c =
     (let n = (of_char c :: nat)
      in if (65 \<le> n \<and> n \<le> 90) \<or> (192 \<le> n \<and> n \<le> 222 \<and> n \<noteq> 215) then char_of (n + 32) else c)"

definition toLowerCase :: "string \<Rightarrow> string" where
  "toLowerCase s = map lowerChar s"

text \<open>\<^verbatim>\<open>s.split('?')[0]\<close>: everything before the first question mark.\<close>

definition split_first :: "string \<Rightarrow> string" where
  "split_first s = takeWhile (\<lambda>c. c \<noteq> CHR ''?'') s"

text \<open>
  \<^verbatim>\<open>encodeURIComponent\<close>: letters, digits and \<^verbatim>\<open>- _ . ! ~ * ' ( )\<close> are kept, every other
  code unit is written as the percent-escaped bytes of its UTF-8 encoding (one byte below
  128, two bytes from 128 to 255).
\<close>

definition unreserved :: "char \<Rightarrow> bool" where
  "unreserved c =
     (let n = (of_char c :: nat)
      in (65 \<le> n \<and> n \<le> 90) \<or> (97 \<le> n \<and> n \<le> 122) \<or> (48 \<le> n \<and> n \<le> 57) \<or>
         c \<in> set ''-_.!~*()'' \<or> n = 39)"

definition hexdigit :: "nat \<Rightarrow> char" where
  "hexdigit d = ''0123456789ABCDEF'' ! d"

definition pct :: "nat \<Rightarrow> string" where
  "pct b = [CHR ''%'', hexdigit (b div 16), hexdigit (b mod 16)]"

definition encodeChar :: "char \<Rightarrow> string" where
  "encodeChar c =
     (let n = (of_char c :: nat)
      in if unreserved c then [c]
         else if n < 128 then pct n
         else pct (192 + n div 64) @ pct (128 + n mod 64))"

definition encodeURIComponent :: "string \<Rightarrow> string" where
  "encodeURIComponent s = concat (map encodeChar s)"

text \<open>
  \<^verbatim>\<open>s.replace(/&nbsp;/g, ' ')\<close>, for any literal pattern: scanning from the left, every match
  is replaced and the scan goes on behind it.
\<close>

fun replaceAll :: "string \<Rightarrow> string \<Rightarrow> string \<Rightarrow> string" where
  "replaceAll pat rep [] = []"
| "replaceAll pat rep (c # cs) =
     (if pat \<noteq> [] \<and> prefix pat (c # cs)
      then rep @ replaceAll pat rep (drop (length pat - 1) cs)
      else c # replaceAll pat rep cs)"

section \<open>Documents, the network and errors\<close>

text \<open>
  Of a DOM element the program reads the text content, the inner markup, the class name
  (\<^verbatim>\<open>(a.className || "").toString()\<close>), the title (\<^verbatim>\<open>a.title || ""\<close>, here \<open>elem_title\<close>) and the
  \<^verbatim>\<open>href\<close> attribute, which \<^verbatim>\<open>getAttribute\<close> gives as \<^verbatim>\<open>null\<close> when it is absent.
\<close>

record element =
  textContent :: string
  innerHTML :: string
  className :: string
  elem_title :: string
  href :: "string option"

text \<open>
  Of a parsed document the program reads the title and the answers of the selector engine:
  \<open>selectAll d sel\<close> is the list of the elements matching \<open>sel\<close>, in document order.
\<close>

record document =
  doc_title :: string
  selectAll :: "string \<Rightarrow> element list"

definition querySelectorAll :: "document \<Rightarrow> string \<Rightarrow> element list" where
  "querySelectorAll d sel = selectAll d sel"

definition querySelector :: "document \<Rightarrow> string \<Rightarrow> element option" where
  "querySelector d sel = (case selectAll d sel of [] \<Rightarrow> None | e # _ \<Rightarrow> Some e)"

text \<open>
  Every error the program throws itself is \<^verbatim>\<open>new Error(message)\<close>; calling
  \<^verbatim>\<open>startsWith\<close> on \<^verbatim>\<open>null\<close> is the engine's \<^verbatim>\<open>TypeError\<close>.
\<close>

datatype error = Error string | TypeError

text \<open>
  A request either fails in transport (\<^verbatim>\<open>fetch\<close> or the reading of the text rejects,
  with a message) or gives a response with its \<^verbatim>\<open>ok\<close> flag, its status and the document
  parsed from its text.
\<close>

datatype http_result = Rejected string | Response bool nat document

text \<open>
  The world outside: \<open>clock w n\<close> is what \<^verbatim>\<open>Date.now()\<close> gives and \<open>net w n url\<close> is what
  the request for \<open>url\<close> gives, when \<open>n\<close> requests have been issued before.
\<close>

record world =
  clock :: "nat \<Rightarrow> nat"
  net :: "nat \<Rightarrow> string \<Rightarrow> http_result"

text \<open>The effects of a run: the requests issued and the delays waited, oldest first.\<close>

record state =
  requests :: "string list"
  delays :: "nat list"

definition CORS_PROXY :: string where
  "CORS_PROXY = ''https://corsproxy.io/?''"

definition cacheBuster :: "string \<Rightarrow> nat \<Rightarrow> string" where
  "cacheBuster url now =
     (if str_includes url ''?'' then ''&t='' @ show_nat now else ''?t='' @ show_nat now)"

definition targetUrl :: "string \<Rightarrow> nat \<Rightarrow> string" where
  "targetUrl url now = CORS_PROXY @ encodeURIComponent (url @ cacheBuster url now)"

definition cloudflare :: "document \<Rightarrow> bool" where
  "cloudflare doc =
     (str_includes (doc_title doc) ''Just a moment'' \<or> str_includes (doc_title doc) ''Cloudflare'')"

text \<open>The body of the \<^verbatim>\<open>try\<close> block of \<^verbatim>\<open>fetchPage\<close>, Inl being the message of what it throws.\<close>

definition fetchPage_try :: "world \<Rightarrow> string \<Rightarrow> state \<Rightarrow> (string + document) \<times> state" where
  "fetchPage_try w url s =
     (let n = length (requests s);
          target = targetUrl url (clock w n);
          s' = s\<lparr>requests := requests s @ [target]\<rparr>
      in case net w n target of
           Rejected msg \<Rightarrow> (Inl msg, s')
         | Response ok status doc \<Rightarrow>
             if \<not> ok then (Inl (''HTTP Error: '' @ show_nat status), s')
             else if cloudflare doc
               then (Inl ''Blocked by Cloudflare protection. Try a different network.'', s')
             else (Inr doc, s'))"

text \<open>The \<^verbatim>\<open>catch\<close> block turns whatever was thrown into one error.\<close>

definition fetchPage :: "world \<Rightarrow> string \<Rightarrow> state \<Rightarrow> (error + document) \<times> state" where
  "fetchPage w url s =
     (case fetchPage_try w url s of
        (Inl msg, s') \<Rightarrow> (Inl (Error (''Network error: '' @ msg)), s')
      | (Inr doc, s') \<Rightarrow> (Inr doc, s'))"

section \<open>Extraction\<close>

text \<open>\<^verbatim>\<open>a || b\<close> on a string that may be undefined: \<open>a\<close> unless it is undefined or empty.\<close>

definition orElse :: "string option \<Rightarrow> string \<Rightarrow> string" where
  "orElse a b = (case a of None \<Rightarrow> b | Some t \<Rightarrow> if t = [] then b else t)"

text \<open>\<^verbatim>\<open>doc.querySelector(sel)?.textContent\<close>\<close>

definition textOf :: "document \<Rightarrow> string \<Rightarrow> string option" where
  "textOf doc sel = map_option textContent (querySelector doc sel)"

record metadata =
  meta_title :: string
  author :: string

definition extractMetadata :: "document \<Rightarrow> metadata" where
  "extractMetadata doc =
     (let title' = orElse (textOf doc ''h1._title_2d1pc_26'')
                     (orElse (textOf doc ''h1.headline'')
                        (orElse (textOf doc ''h1'') ''Unknown Title''));
          author' = orElse (textOf doc ''._author__title_2mplv_48'')
                      (orElse (textOf doc ''.y_eU'')
                         (orElse (textOf doc ''.b-story-user-y'') ''Unknown Author''))
      in \<lparr>meta_title = trim title', author = trim author'\<rparr>)"

text \<open>\<^verbatim>\<open>a || b\<close> on an element that may be null.\<close>

definition orElem :: "element option \<Rightarrow> element option \<Rightarrow> element option" where
  "orElem a b = (case a of None \<Rightarrow> b | Some e \<Rightarrow> Some e)"

text \<open>The result is the \<^verbatim>\<open>content\<close> field of the object the function returns.\<close>

definition extractStoryContent :: "document \<Rightarrow> error + string" where
  "extractStoryContent doc =
     (let contentDiv = orElem (querySelector doc ''._article__content_14oe9_81 > div:first-child'')
                         (orElem (querySelector doc ''.b-story-body-x'')
                            (querySelector doc ''.aa_ht''))
      in case contentDiv of
           None \<Rightarrow> Inl (Error ''Could not locate story text. The page structure might be unknown or blocked.'')
         | Some e \<Rightarrow> Inr (innerHTML e))"

section \<open>Pagination\<close>

text \<open>The callback of \<^verbatim>\<open>links.find\<close>.\<close>

definition isNextLink :: "element \<Rightarrow> bool" where
  "isNextLink a =
     (let text = toLowerCase (trim (textContent a));
          cls = toLowerCase (className a);
          title' = toLowerCase (elem_title a)
      in text = ''next'' \<or>
         str_includes text (''next '' @ [CHR 0xBB]) \<or>
         text = [CHR 0xBB] \<or>
         str_includes cls ''pager-next'' \<or>
         str_includes cls ''b-pager-next'' \<or>
         str_includes title' ''next page'')"

definition nextLink :: "document \<Rightarrow> element option" where
  "nextLink doc = find isNextLink (querySelectorAll doc ''a'')"

definition MAX_PAGES :: nat where
  "MAX_PAGES = 50"

definition SEPARATOR :: string where
  \<open>SEPARATOR = ''<hr class="page-break" style="margin: 2em 0; border-top: 2px dashed #666;" />''\<close>

definition currentUrl :: "string \<Rightarrow> nat \<Rightarrow> string" where
  "currentUrl baseUrl pageNum =
     (if pageNum = 1 then baseUrl else baseUrl @ ''?page='' @ show_nat pageNum)"

text \<open>
  The \<^verbatim>\<open>while\<close> loop of \<^verbatim>\<open>fetchAllPagesOfStory\<close> on its variables \<open>pageNum\<close>,
  \<open>fullHtml\<close> and \<open>hasNext\<close>. Writing the progress text is not modelled.
\<close>

function fetchAllPagesOfStory_loop ::
  "world \<Rightarrow> string \<Rightarrow> nat \<Rightarrow> string \<Rightarrow> bool \<Rightarrow> state \<Rightarrow> (error + string) \<times> state" where
  "fetchAllPagesOfStory_loop w baseUrl pageNum fullHtml hasNext s =
     (if hasNext \<and> pageNum \<le> MAX_PAGES then
        (case fetchPage w (currentUrl baseUrl pageNum) s of
           (Inl e, s1) \<Rightarrow> (Inl e, s1)
         | (Inr doc, s1) \<Rightarrow>
             (case extractStoryContent doc of
                Inl e \<Rightarrow> (Inl e, s1)
              | Inr content' \<Rightarrow>
                  (let fullHtml' = (if pageNum = 1 then content' else fullHtml @ SEPARATOR @ content')
                   in case nextLink doc of
                        Some a \<Rightarrow>
                          fetchAllPagesOfStory_loop w baseUrl (pageNum + 1) fullHtml' hasNext
                            (s1\<lparr>delays := delays s1 @ [300]\<rparr>)
                      | None \<Rightarrow> fetchAllPagesOfStory_loop w baseUrl pageNum fullHtml' False s1)))
      else (Inr fullHtml, s))"
  by pat_completeness auto
termination
  by (relation "measure (\<lambda>(w, baseUrl, pageNum, fullHtml, hasNext, s).
        if hasNext \<and> pageNum \<le> MAX_PAGES then 2 * (Suc MAX_PAGES - pageNum) else 0)")
     (auto simp: MAX_PAGES_def)

declare fetchAllPagesOfStory_loop.simps [simp del]

definition fetchAllPagesOfStory :: "world \<Rightarrow> string \<Rightarrow> state \<Rightarrow> (error + string) \<times> state" where
  "fetchAllPagesOfStory w startUrl s =
     fetchAllPagesOfStory_loop w (split_first startUrl) 1 [] True s"

section \<open>The archive\<close>

text \<open>
  The archive library is not part of the program. Its object keeps the entries by name, in
  the order in which the names were first added: \<^verbatim>\<open>file(name, data, options)\<close> adds a file
  or replaces the entry of that name, \<^verbatim>\<open>folder(name)\<close> adds the directory entry
  \<^verbatim>\<open>name/\<close> unless it is there and makes it the root of the names added through it.
  \<open>compression\<close> is the option given with the file, if any.
\<close>

record zip_entry =
  entry_name :: string
  is_dir :: bool
  entry_data :: string
  compression :: "string option"

definition zip_put :: "zip_entry \<Rightarrow> zip_entry list \<Rightarrow> zip_entry list" where
  "zip_put e z =
     (if entry_name e \<in> set (map entry_name z)
      then map (\<lambda>x. if entry_name x = entry_name e then e else x) z
      else z @ [e])"

definition zip_file :: "string \<Rightarrow> string \<Rightarrow> string option \<Rightarrow> zip_entry list \<Rightarrow> zip_entry list" where
  "zip_file nm dat opt z =
     zip_put \<lparr>entry_name = nm, is_dir = False, entry_data = dat, compression = opt\<rparr> z"

definition zip_folder :: "string \<Rightarrow> zip_entry list \<Rightarrow> zip_entry list" where
  "zip_folder nm z =
     (if nm @ ''/'' \<in> set (map entry_name z) then z
      else z @ [\<lparr>entry_name = nm @ ''/'', is_dir = True, entry_data = [], compression = None\<rparr>])"

record book_chapter =
  title :: string
  content :: string

definition NL :: string where
  "NL = [CHR 0x0A]"

definition sp :: "nat \<Rightarrow> string" where
  "sp n = replicate n (CHR '' '')"

definition CONTAINER_XML :: string where
  \<open>CONTAINER_XML = ''<?xml version="1.0"?><container version="1.0" xmlns="urn:oasis:names:tc:opendocument:xmlns:container"><rootfiles><rootfile full-path="content.opf" media-type="application/oebps-package+xml"/></rootfiles></container>''\<close>

definition xhtmlContent :: "book_chapter \<Rightarrow> string \<Rightarrow> string" where
  \<open>xhtmlContent chap cleanContent =
      ''<?xml version="1.0" encoding="utf-8"?>'' @ NL @
      sp 12 @ ''<!DOCTYPE html PUBLIC "-//W3C//DTD XHTML 1.1//EN" "http://www.w3.org/TR/xhtml11/DTD/xhtml11.dtd">'' @ NL @
      sp 12 @ ''<html xmlns="http://www.w3.org/1999/xhtml">'' @ NL @
      sp 12 @ ''<head>'' @ NL @
      sp 16 @ ''<title>'' @ title chap @ ''</title>'' @ NL @
      sp 16 @ ''<style>body { font-family: serif; line-height: 1.5; margin: 2em; }</style>'' @ NL @
      sp 12 @ ''</head>'' @ NL @
      sp 12 @ ''<body>'' @ NL @
      sp 16 @ ''<h2>'' @ title chap @ ''</h2>'' @ NL @
      sp 16 @ ''<hr/>'' @ NL @
      sp 16 @ cleanContent @ NL @
      sp 12 @ ''</body>'' @ NL @
      sp 12 @ ''</html>''\<close>

definition opfContent :: "string \<Rightarrow> string \<Rightarrow> string \<Rightarrow> string \<Rightarrow> string" where
  \<open>opfContent title' author' manifestItems' spineItems' =
      ''<?xml version="1.0" encoding="UTF-8"?>'' @ NL @
      sp 8 @ ''<package xmlns="http://www.idpf.org/2007/opf" unique-identifier="BookId" version="2.0">'' @ NL @
      sp 12 @ ''<metadata xmlns:dc="http://purl.org/dc/elements/1.1/">'' @ NL @
      sp 16 @ ''<dc:title>'' @ title' @ ''</dc:title><dc:creator>'' @ author' @ ''</dc:creator><dc:language>en</dc:language>'' @ NL @
      sp 12 @ ''</metadata>'' @ NL @
      sp 12 @ ''<manifest>'' @ manifestItems' @ ''</manifest>'' @ NL @
      sp 12 @ ''<spine toc="ncx">'' @ spineItems' @ ''</spine>'' @ NL @
      sp 8 @ ''</package>''\<close>

definition ncxContent :: "string \<Rightarrow> string \<Rightarrow> string" where
  \<open>ncxContent title' navMapItems' =
      ''<?xml version="1.0" encoding="UTF-8"?>'' @ NL @
      sp 8 @ ''<ncx xmlns="http://www.daisy.org/z3986/2005/ncx/" version="2005-1">'' @ NL @
      sp 12 @ ''<head><meta name="dtb:uid" content="urn:uuid:12345"/></head>'' @ NL @
      sp 12 @ ''<docTitle><text>'' @ title' @ ''</text></docTitle>'' @ NL @
      sp 12 @ ''<navMap>'' @ navMapItems' @ ''</navMap>'' @ NL @
      sp 8 @ ''</ncx>''\<close>

text \<open>The variables that the callback of \<^verbatim>\<open>chapters.forEach\<close> updates.\<close>

record epub_vars =
  zip :: "zip_entry list"
  manifestItems :: string
  spineItems :: string
  navMapItems :: string

definition chapterId :: "nat \<Rightarrow> string" where
  "chapterId index = ''chapter'' @ show_nat (index + 1)"

definition chapterFileName :: "nat \<Rightarrow> string" where
  "chapterFileName index = chapterId index @ ''.html''"

text \<open>The callback, on a chapter and its index (from 0).\<close>

definition addChapter :: "book_chapter \<Rightarrow> nat \<Rightarrow> epub_vars \<Rightarrow> epub_vars" where
  \<open>addChapter chap index v =
     (let id' = chapterId index;
          fileName = chapterFileName index;
          cleanContent = replaceAll ''&nbsp;'' '' '' (content chap)
      in \<lparr>zip = zip_file fileName (xhtmlContent chap cleanContent) None (zip v),
          manifestItems = manifestItems v @
            ''<item id="'' @ id' @ ''" href="'' @ fileName @ ''" media-type="application/xhtml+xml"/>'',
          spineItems = spineItems v @ ''<itemref idref="'' @ id' @ ''"/>'',
          navMapItems = navMapItems v @
            ''<navPoint id="navPoint-'' @ show_nat (index + 1) @ ''" playOrder="'' @ show_nat (index + 1) @
            ''"><navLabel><text>'' @ title chap @ ''</text></navLabel><content src="'' @ fileName @
            ''"/></navPoint>''\<rparr>)\<close>

fun forEach_chapters :: "book_chapter list \<Rightarrow> nat \<Rightarrow> epub_vars \<Rightarrow> epub_vars" where
  "forEach_chapters [] index v = v"
| "forEach_chapters (chap # rest) index v = forEach_chapters rest (index + 1) (addChapter chap index v)"

text \<open>What \<^verbatim>\<open>generateEpub\<close> hands to \<^verbatim>\<open>saveAs\<close>: the entries of the archive and the file name.\<close>

record epub =
  files :: "zip_entry list"
  saved_as :: string

definition generateEpub :: "string \<Rightarrow> string \<Rightarrow> book_chapter list \<Rightarrow> epub" where
  \<open>generateEpub title' author' chapters =
     (let zip0 = zip_file ''mimetype'' ''application/epub+zip'' (Some ''STORE'') [];
          zip1 = zip_file (''META-INF/'' @ ''container.xml'') CONTAINER_XML None (zip_folder ''META-INF'' zip0);
          v = forEach_chapters chapters 0
                \<lparr>zip = zip1,
                 manifestItems = ''<item id="ncx" href="toc.ncx" media-type="application/x-dtbncx+xml"/>'',
                 spineItems = [], navMapItems = []\<rparr>;
          zip2 = zip_file ''content.opf''
                   (opfContent title' author' (manifestItems v) (spineItems v)) None (zip v);
          zip3 = zip_file ''toc.ncx'' (ncxContent title' (navMapItems v)) None zip2
      in \<lparr>files = zip3, saved_as = title' @ ''.epub''\<rparr>)\<close>

section \<open>The two modes of a run\<close>

definition processSingleStory :: "world \<Rightarrow> string \<Rightarrow> state \<Rightarrow> (error + epub) \<times> state" where
  "processSingleStory w url s =
     (case fetchPage w url s of
        (Inl e, s1) \<Rightarrow> (Inl e, s1)
      | (Inr doc, s1) \<Rightarrow>
          (let meta = extractMetadata doc
           in case fetchAllPagesOfStory w url s1 of
                (Inl e, s2) \<Rightarrow> (Inl e, s2)
              | (Inr fullContent, s2) \<Rightarrow>
                  (Inr (generateEpub (meta_title meta) (author meta)
                          [\<lparr>title = meta_title meta, content = fullContent\<rparr>]), s2)))"

definition SITE_ORIGIN :: string where
  "SITE_ORIGIN = ''https://www.literotica.com''"

text \<open>
  The address of a chapter, from the \<^verbatim>\<open>href\<close> of its link: the value of \<open>chapterUrl\<close>
  when the loop hands it to the pagination.
\<close>

definition chapterUrl :: "element \<Rightarrow> error + string" where
  "chapterUrl link =
     (case href link of
        None \<Rightarrow> Inl TypeError
      | Some h \<Rightarrow> Inr (if \<not> startsWith h ''http'' then SITE_ORIGIN @ h else h))"

text \<open>The \<^verbatim>\<open>for\<close> loop of \<^verbatim>\<open>processSeries\<close> over the chapter links still to do.\<close>

fun processSeries_loop ::
  "world \<Rightarrow> element list \<Rightarrow> book_chapter list \<Rightarrow> state \<Rightarrow> (error + book_chapter list) \<times> state" where
  "processSeries_loop w [] chapters s = (Inr chapters, s)"
| "processSeries_loop w (link # rest) chapters s =
     (case chapterUrl link of
        Inl e \<Rightarrow> (Inl e, s)
      | Inr url \<Rightarrow>
          (let chapterTitle = trim (textContent link)
           in case fetchAllPagesOfStory w url s of
                (Inl e, s1) \<Rightarrow> (Inl e, s1)
              | (Inr fullChapterContent, s1) \<Rightarrow>
                  processSeries_loop w rest
                    (chapters @ [\<lparr>title = chapterTitle, content = fullChapterContent\<rparr>])
                    (s1\<lparr>delays := delays s1 @ [500]\<rparr>)))"

text \<open>\<^verbatim>\<open>doc.querySelector(sel)?.textContent.trim()\<close>\<close>

definition trimmedTextOf :: "document \<Rightarrow> string \<Rightarrow> string option" where
  "trimmedTextOf doc sel = map_option (\<lambda>e. trim (textContent e)) (querySelector doc sel)"

definition processSeries :: "world \<Rightarrow> string \<Rightarrow> state \<Rightarrow> (error + epub) \<times> state" where
  "processSeries w url s =
     (case fetchPage w url s of
        (Inl e, s1) \<Rightarrow> (Inl e, s1)
      | (Inr doc, s1) \<Rightarrow>
          (let seriesTitle = orElse (trimmedTextOf doc ''h1.headline'') ''Unknown Series'';
               seriesAuthor = orElse (trimmedTextOf doc ''.y_eU'') ''Unknown Author'';
               chapterLinks = querySelectorAll doc ''.series__works .br_rj''
           in if length chapterLinks = 0 then (Inl (Error ''No chapters found on series page.''), s1)
              else case processSeries_loop w chapterLinks [] s1 of
                     (Inl e, s2) \<Rightarrow> (Inl e, s2)
                   | (Inr chapters, s2) \<Rightarrow> (Inr (generateEpub seriesTitle seriesAuthor chapters), s2)))"

text \<open>The \<^verbatim>\<open>try\<close> block of the click handler, on the address it has normalised.\<close>

definition run :: "world \<Rightarrow> string \<Rightarrow> state \<Rightarrow> (error + epub) \<times> state" where
  "run w url s =
     (if str_includes url ''/series/se/'' then processSeries w url s else processSingleStory w url s)"

section \<open>Notions used in the statements\<close>

text \<open>
  The requests that \<^verbatim>\<open>fetchPage\<close> issues for the pages \<open>p\<close>, \<open>p + 1\<close>, ..., \<open>p + m - 1\<close> of
  \<open>baseUrl\<close>, the first of them when \<open>n\<close> requests have been issued before.
\<close>

definition pageRequests :: "world \<Rightarrow> string \<Rightarrow> nat \<Rightarrow> nat \<Rightarrow> nat \<Rightarrow> string list" where
  "pageRequests w baseUrl p n m =
     map (\<lambda>k. targetUrl (currentUrl baseUrl (p + k)) (clock w (n + k))) [0..<m]"

text \<open>
  The value of \<open>fullHtml\<close> after page \<open>p\<close> with content \<open>c\<close> has been added to \<open>f\<close>.
\<close>

definition nextHtml :: "nat \<Rightarrow> string \<Rightarrow> string \<Rightarrow> string" where
  "nextHtml p f c = (if p = 1 then c else f @ SEPARATOR @ c)"

text \<open>
  Page \<open>p\<close>, requested when \<open>n\<close> requests have been issued before, is served (the response is
  \<open>ok\<close> and no challenge page), has a content container and has a next link; and the \<open>j\<close>
  pages from page \<open>p\<close> on all are.
\<close>

definition pageGoesOn :: "world \<Rightarrow> string \<Rightarrow> nat \<Rightarrow> nat \<Rightarrow> bool" where
  "pageGoesOn w baseUrl p n =
     (\<exists>st doc c.
        net w n (targetUrl (currentUrl baseUrl p) (clock w n)) = Response True st doc \<and>
        \<not> cloudflare doc \<and> extractStoryContent doc = Inr c \<and> nextLink doc \<noteq> None)"

definition advances :: "world \<Rightarrow> string \<Rightarrow> nat \<Rightarrow> nat \<Rightarrow> nat \<Rightarrow> bool" where
  "advances w baseUrl p n j = (\<forall>i<j. pageGoesOn w baseUrl (p + i) (n + i))"

text \<open>
  The entry that the callback adds for the chapter at \<open>index\<close>, the entries that are files,
  and the entries that are there before the chapters are added.
\<close>

definition chapterEntry :: "nat \<Rightarrow> book_chapter \<Rightarrow> zip_entry" where
  "chapterEntry index chap =
     \<lparr>entry_name = chapterFileName index, is_dir = False,
      entry_data = xhtmlContent chap (replaceAll ''&nbsp;'' '' '' (content chap)), compression = None\<rparr>"

definition fileEntries :: "zip_entry list \<Rightarrow> zip_entry list" where
  "fileEntries z = filter (\<lambda>e. \<not> is_dir e) z"

definition fixedEntries :: "zip_entry list" where
  "fixedEntries =
     [\<lparr>entry_name = ''mimetype'', is_dir = False, entry_data = ''application/epub+zip'',
       compression = Some ''STORE''\<rparr>,
      \<lparr>entry_name = ''META-INF/'', is_dir = True, entry_data = [], compression = None\<rparr>,
      \<lparr>entry_name = ''META-INF/container.xml'', is_dir = False, entry_data = CONTAINER_XML,
       compression = None\<rparr>]"

text \<open>
  The parts of a chapter document before the heading and after the content.
\<close>

definition xhtmlHead :: "string \<Rightarrow> string" where
  \<open>xhtmlHead title' =
      ''<?xml version="1.0" encoding="utf-8"?>'' @ NL @
      sp 12 @ ''<!DOCTYPE html PUBLIC "-//W3C//DTD XHTML 1.1//EN" "http://www.w3.org/TR/xhtml11/DTD/xhtml11.dtd">'' @ NL @
      sp 12 @ ''<html xmlns="http://www.w3.org/1999/xhtml">'' @ NL @
      sp 12 @ ''<head>'' @ NL @
      sp 16 @ ''<title>'' @ title' @ ''</title>'' @ NL @
      sp 16 @ ''<style>body { font-family: serif; line-height: 1.5; margin: 2em; }</style>'' @ NL @
      sp 12 @ ''</head>'' @ NL @
      sp 12 @ ''<body>'' @ NL @
      sp 16\<close>

definition xhtmlTail :: string where
  "xhtmlTail = NL @ sp 12 @ ''</body>'' @ NL @ sp 12 @ ''</html>''"

text \<open>
  The request number \<open>k\<close> of the log \<open>rs\<close> was answered by a response that is \<open>ok\<close> and whose
  document has the title of a challenge page; no request from number \<open>n\<close> on was; and the two
  errors of a page: no story text, and the challenge page as \<^verbatim>\<open>fetchPage\<close> reports it.
\<close>

definition challenged :: "world \<Rightarrow> string list \<Rightarrow> nat \<Rightarrow> bool" where
  "challenged w rs k =
     (case net w k (rs ! k) of Rejected msg \<Rightarrow> False | Response ok status doc \<Rightarrow> ok \<and> cloudflare doc)"

definition unchallenged_from :: "world \<Rightarrow> nat \<Rightarrow> state \<Rightarrow> bool" where
  "unchallenged_from w n s = (\<forall>k. n \<le> k \<and> k < length (requests s) \<longrightarrow> \<not> challenged w (requests s) k)"

definition CONTENT_NOT_FOUND :: error where
  "CONTENT_NOT_FOUND = Error ''Could not locate story text. The page structure might be unknown or blocked.''"

definition BLOCKED :: error where
  "BLOCKED = Error (''Network error: '' @ ''Blocked by Cloudflare protection. Try a different network.'')"

section \<open>Example inputs\<close>

text \<open>
  A story page with a next link, a last page, and two worlds that serve them: the first
  page and then the last one, or the page with the next link for ever.
\<close>

definition page_with_next :: document where
  "page_with_next =
     \<lparr>doc_title = ''A Story - Page'',
      selectAll = (\<lambda>sel.
        if sel = ''.aa_ht''
          then [\<lparr>textContent = ''one'', innerHTML = ''<p>one</p>'', className = ''aa_ht'',
                 elem_title = [], href = None\<rparr>]
        else if sel = ''a''
          then [\<lparr>textContent = ''Home'', innerHTML = ''Home'', className = [],
                 elem_title = [], href = Some ''/''\<rparr>,
                \<lparr>textContent = '' Next '', innerHTML = '' Next '', className = [],
                 elem_title = [], href = Some ''/s/a-story?page=2''\<rparr>]
        else [])\<rparr>"

definition last_page :: document where
  "last_page =
     \<lparr>doc_title = ''A Story - Page 2'',
      selectAll = (\<lambda>sel.
        if sel = ''.aa_ht''
          then [\<lparr>textContent = ''two'', innerHTML = ''<p>two</p>'', className = ''aa_ht'',
                 elem_title = [], href = None\<rparr>]
        else if sel = ''a''
          then [\<lparr>textContent = ''Home'', innerHTML = ''Home'', className = [],
                 elem_title = [], href = Some ''/''\<rparr>]
        else [])\<rparr>"

definition two_page_world :: world where
  "two_page_world =
     \<lparr>clock = (\<lambda>n. 1700000000000 + n),
      net = (\<lambda>n url. if n = 0 then Response True 200 page_with_next else Response True 200 last_page)\<rparr>"

definition endless_world :: world where
  "endless_world =
     \<lparr>clock = (\<lambda>n. 1700000000000 + n), net = (\<lambda>n url. Response True 200 page_with_next)\<rparr>"

definition start_state :: state where
  "start_state = \<lparr>requests = [], delays = []\<rparr>"

text \<open>
  A page with two next links and a page on which no selector matches.
\<close>

definition pager_link :: element where
  "pager_link = \<lparr>textContent = ''2'', innerHTML = ''2'', className = ''l_bJ Pager-Next'',
                  elem_title = [], href = Some ''/s/a-story?page=2''\<rparr>"

definition arrow_link :: element where
  "arrow_link = \<lparr>textContent = [CHR 0xBB], innerHTML = [CHR 0xBB], className = [],
                  elem_title = ''Next Page'', href = Some ''/s/a-story?page=2''\<rparr>"

definition two_next_links :: document where
  "two_next_links =
     \<lparr>doc_title = ''A Story'',
      selectAll = (\<lambda>sel. if sel = ''a'' then [pager_link, arrow_link] else [])\<rparr>"

definition empty_page :: document where
  "empty_page = \<lparr>doc_title = [], selectAll = (\<lambda>sel. [])\<rparr>"

text \<open>
  A chapter whose content has the entity in it.
\<close>

definition example_chapter :: book_chapter where
  "example_chapter = \<lparr>title = ''C1'', content = ''<p>a&nbsp;b</p>''\<rparr>"

text \<open>
  A challenge page, a world that serves it and a world in which every request is rejected.
\<close>

definition challenge_page :: document where
  "challenge_page = \<lparr>doc_title = ''Just a moment...'', selectAll = (\<lambda>sel. [])\<rparr>"

definition challenge_world :: world where
  "challenge_world =
     \<lparr>clock = (\<lambda>n. 1700000000000 + n), net = (\<lambda>n url. Response True 200 challenge_page)\<rparr>"

definition rejecting_world :: world where
  "rejecting_world =
     \<lparr>clock = (\<lambda>n. 1700000000000 + n),
      net = (\<lambda>n url. Rejected ''Blocked by Cloudflare protection. Try a different network.'')\<rparr>"

text \<open>
  Series pages: one whose only matching element has no \<open>href\<close>, and one with two chapter
  links, served by a world that gives every later request the last page of a story.
\<close>

definition page_without_href :: document where
  "page_without_href =
     \<lparr>doc_title = ''A Series'',
      selectAll = (\<lambda>sel.
        if sel = ''.series__works .br_rj''
          then [\<lparr>textContent = ''Ch 1'', innerHTML = ''Ch 1'', className = ''br_rj'',
                 elem_title = [], href = None\<rparr>]
        else [])\<rparr>"

definition without_href_world :: world where
  "without_href_world =
     \<lparr>clock = (\<lambda>n. 1700000000000 + n), net = (\<lambda>n url. Response True 200 page_without_href)\<rparr>"

definition first_link :: element where
  "first_link = \<lparr>textContent = '' Ch 1 '', innerHTML = '' Ch 1 '', className = ''br_rj'',
                  elem_title = [], href = Some ''/s/ch-1''\<rparr>"

definition second_link :: element where
  "second_link = \<lparr>textContent = ''Ch 2'', innerHTML = ''Ch 2'', className = ''br_rj'',
                   elem_title = [], href = Some ''https://www.literotica.com/s/ch-2''\<rparr>"

definition series_page :: document where
  "series_page =
     \<lparr>doc_title = ''A Series'',
      selectAll = (\<lambda>sel. if sel = ''.series__works .br_rj'' then [first_link, second_link] else [])\<rparr>"

definition series_world :: world where
  "series_world =
     \<lparr>clock = (\<lambda>n. 1700000000000 + n),
      net = (\<lambda>n url. if n = 0 then Response True 200 series_page else Response True 200 last_page)\<rparr>"

section \<open>Properties\<close>

subsection \<open>Requests of \<^verbatim>\<open>fetchPage\<close> and of the pagination loop\<close>

lemma fetchPage_requests:
  "requests (snd (fetchPage w u s)) = requests s @ [targetUrl u (clock w (length (requests s)))]"
  by (simp add: fetchPage_def fetchPage_try_def Let_def split: http_result.splits prod.splits sum.splits)

lemma loop_False [simp]: "fetchAllPagesOfStory_loop w b p f False s = (Inr f, s)"
  by (simp add: fetchAllPagesOfStory_loop.simps)

lemma loop_over [simp]: "MAX_PAGES < p \<Longrightarrow> fetchAllPagesOfStory_loop w b p f h s = (Inr f, s)"
  by (simp add: fetchAllPagesOfStory_loop.simps)

lemma loop_step:
  "p \<le> MAX_PAGES \<Longrightarrow> fetchAllPagesOfStory_loop w b p f True s =
     (case fetchPage w (currentUrl b p) s of
        (Inl e, s1) \<Rightarrow> (Inl e, s1)
      | (Inr doc, s1) \<Rightarrow>
          (case extractStoryContent doc of
             Inl e \<Rightarrow> (Inl e, s1)
           | Inr c \<Rightarrow>
               (case nextLink doc of
                  Some a \<Rightarrow> fetchAllPagesOfStory_loop w b (p + 1)
                             (if p = 1 then c else f @ SEPARATOR @ c) True (s1\<lparr>delays := delays s1 @ [300]\<rparr>)
                | None \<Rightarrow> (Inr (if p = 1 then c else f @ SEPARATOR @ c), s1))))"
  by (subst fetchAllPagesOfStory_loop.simps) (simp add: Let_def split: prod.splits sum.splits option.splits)

lemma length_encodeChar: "1 \<le> length (encodeChar c)"
  by (simp add: encodeChar_def pct_def Let_def)

lemma length_encodeURIComponent: "length s \<le> length (encodeURIComponent s)"
proof (induction s)
  case Nil
  show ?case by (simp add: encodeURIComponent_def)
next
  case (Cons c cs)
  have "length (encodeURIComponent (c # cs)) = length (encodeChar c) + length (encodeURIComponent cs)"
    by (simp add: encodeURIComponent_def)
  with Cons length_encodeChar [of c] show ?case by simp
qed

lemma targetUrl_longer: "length u < length (targetUrl u t)"
proof -
  have "length (u @ cacheBuster u t) \<le> length (encodeURIComponent (u @ cacheBuster u t))"
    by (rule length_encodeURIComponent)
  then show ?thesis by (simp add: targetUrl_def CORS_PROXY_def)
qed

lemma targetUrl_neq: "targetUrl u t \<noteq> u"
  using targetUrl_longer [of u t] by auto

lemma pageRequests_0 [simp]: "pageRequests w b p n 0 = []"
  by (simp add: pageRequests_def)

lemma pageRequests_Suc:
  "pageRequests w b p n (Suc m) = targetUrl (currentUrl b p) (clock w n) # pageRequests w b (Suc p) (Suc n) m"
  by (simp add: pageRequests_def map_upt_Suc del: upt_Suc)

lemma length_pageRequests [simp]: "length (pageRequests w b p n m) = m"
  by (simp add: pageRequests_def)

lemma loop_fetch_fail:
  "p \<le> MAX_PAGES \<Longrightarrow> fetchPage w (currentUrl b p) s = (Inl e, s1) \<Longrightarrow>
   fetchAllPagesOfStory_loop w b p f True s = (Inl e, s1)"
  by (simp add: loop_step)

lemma loop_content_fail:
  "p \<le> MAX_PAGES \<Longrightarrow> fetchPage w (currentUrl b p) s = (Inr doc, s1) \<Longrightarrow>
   extractStoryContent doc = Inl e \<Longrightarrow>
   fetchAllPagesOfStory_loop w b p f True s = (Inl e, s1)"
  by (simp add: loop_step)

lemma loop_last:
  "p \<le> MAX_PAGES \<Longrightarrow> fetchPage w (currentUrl b p) s = (Inr doc, s1) \<Longrightarrow>
   extractStoryContent doc = Inr c \<Longrightarrow> nextLink doc = None \<Longrightarrow>
   fetchAllPagesOfStory_loop w b p f True s = (Inr (nextHtml p f c), s1)"
  by (simp add: loop_step nextHtml_def)

lemma loop_next:
  "p \<le> MAX_PAGES \<Longrightarrow> fetchPage w (currentUrl b p) s = (Inr doc, s1) \<Longrightarrow>
   extractStoryContent doc = Inr c \<Longrightarrow> nextLink doc = Some a \<Longrightarrow>
   fetchAllPagesOfStory_loop w b p f True s =
     fetchAllPagesOfStory_loop w b (Suc p) (nextHtml p f c) True (s1\<lparr>delays := delays s1 @ [300]\<rparr>)"
  by (simp add: loop_step nextHtml_def)

lemma loop_induct [consumes 0, case_names over fetch_fail content_fail last more]:
  assumes over: "\<And>p f s. MAX_PAGES < p \<Longrightarrow> P p f s (Inr f, s)"
    and fetch_fail: "\<And>p f s e s1. p \<le> MAX_PAGES \<Longrightarrow> fetchPage w (currentUrl b p) s = (Inl e, s1) \<Longrightarrow>
          P p f s (Inl e, s1)"
    and content_fail: "\<And>p f s doc s1 e. p \<le> MAX_PAGES \<Longrightarrow>
          fetchPage w (currentUrl b p) s = (Inr doc, s1) \<Longrightarrow> extractStoryContent doc = Inl e \<Longrightarrow>
          P p f s (Inl e, s1)"
    and last: "\<And>p f s doc s1 c. p \<le> MAX_PAGES \<Longrightarrow>
          fetchPage w (currentUrl b p) s = (Inr doc, s1) \<Longrightarrow> extractStoryContent doc = Inr c \<Longrightarrow>
          nextLink doc = None \<Longrightarrow> P p f s (Inr (nextHtml p f c), s1)"
    and more: "\<And>p f s doc s1 c a res. p \<le> MAX_PAGES \<Longrightarrow>
          fetchPage w (currentUrl b p) s = (Inr doc, s1) \<Longrightarrow> extractStoryContent doc = Inr c \<Longrightarrow>
          nextLink doc = Some a \<Longrightarrow>
          P (Suc p) (nextHtml p f c) (s1\<lparr>delays := delays s1 @ [300]\<rparr>) res \<Longrightarrow> P p f s res"
  shows "P p f s (fetchAllPagesOfStory_loop w b p f True s)"
proof (induction "Suc MAX_PAGES - p" arbitrary: p f s)
  case 0
  then have "MAX_PAGES < p" by arith
  then show ?case using over by simp
next
  case (Suc d)
  from Suc.hyps(2) have p: "p \<le> MAX_PAGES" and d: "d = Suc MAX_PAGES - Suc p" by arith+
  obtain r s1 where fp: "fetchPage w (currentUrl b p) s = (r, s1)" by (cases "fetchPage w (currentUrl b p) s")
  show ?case
  proof (cases r)
    case (Inl e)
    with fp p show ?thesis using fetch_fail by (simp add: loop_fetch_fail)
  next
    case (Inr doc)
    show ?thesis
    proof (cases "extractStoryContent doc")
      case (Inl e)
      with Inr fp p show ?thesis using content_fail by (simp add: loop_content_fail)
    next
      case c: (Inr c)
      show ?thesis
      proof (cases "nextLink doc")
        case None
        with c Inr fp p show ?thesis using last by (simp add: loop_last)
      next
        case (Some a)
        from fp Inr have fp': "fetchPage w (currentUrl b p) s = (Inr doc, s1)" by simp
        have "P (Suc p) (nextHtml p f c) (s1\<lparr>delays := delays s1 @ [300]\<rparr>)
            (fetchAllPagesOfStory_loop w b (Suc p) (nextHtml p f c) True (s1\<lparr>delays := delays s1 @ [300]\<rparr>))"
          by (rule Suc.hyps(1) [OF d])
        then have "P p f s
            (fetchAllPagesOfStory_loop w b (Suc p) (nextHtml p f c) True (s1\<lparr>delays := delays s1 @ [300]\<rparr>))"
          by (rule more [OF p fp' c Some])
        then show ?thesis by (simp only: loop_next [OF p fp' c Some])
      qed
    qed
  qed
qed

lemma loop_requests_True:
  "\<exists>m. m \<le> Suc MAX_PAGES - p \<and> (p \<le> MAX_PAGES \<longrightarrow> 1 \<le> m) \<and>
       requests (snd (fetchAllPagesOfStory_loop w b p f True s)) =
         requests s @ pageRequests w b p (length (requests s)) m"
proof (induction "Suc MAX_PAGES - p" arbitrary: p f s)
  case 0
  then have over: "MAX_PAGES < p" by arith
  then have "requests (snd (fetchAllPagesOfStory_loop w b p f True s)) =
         requests s @ pageRequests w b p (length (requests s)) 0" by simp
  with over show ?case by (intro exI [of _ 0]) simp
next
  case (Suc d)
  from Suc.hyps(2) have p: "p \<le> MAX_PAGES" and d: "d = Suc MAX_PAGES - Suc p" by arith+
  obtain r s1 where fp: "fetchPage w (currentUrl b p) s = (r, s1)" by (cases "fetchPage w (currentUrl b p) s")
  have rq: "requests s1 = requests s @ [targetUrl (currentUrl b p) (clock w (length (requests s)))]"
    using fetchPage_requests [of w "currentUrl b p" s] fp by simp
  let ?res = "fetchAllPagesOfStory_loop w b p f True s"
  have stop: ?case if "snd ?res = s1"
  proof -
    have "requests (snd ?res) = requests s @ pageRequests w b p (length (requests s)) 1"
      using that rq by (simp add: pageRequests_Suc)
    then show ?thesis using p by (intro exI [of _ 1]) simp
  qed
  show ?case
  proof (cases r)
    case (Inl e)
    with fp p have "?res = (Inl e, s1)" by (simp add: loop_fetch_fail)
    then show ?thesis by (intro stop) simp
  next
    case (Inr doc)
    show ?thesis
    proof (cases "extractStoryContent doc")
      case (Inl e)
      with Inr fp p have "?res = (Inl e, s1)" by (simp add: loop_content_fail)
      then show ?thesis by (intro stop) simp
    next
      case c: (Inr c)
      show ?thesis
      proof (cases "nextLink doc")
        case None
        with c Inr fp p have "?res = (Inr (nextHtml p f c), s1)" by (simp add: loop_last)
        then show ?thesis by (intro stop) simp
      next
        case (Some a)
        let ?s2 = "s1\<lparr>delays := delays s1 @ [300]\<rparr>"
        from Some c Inr fp p
        have more: "?res = fetchAllPagesOfStory_loop w b (Suc p) (nextHtml p f c) True ?s2"
          by (simp add: loop_next)
        from Suc.hyps(1) [OF d, of "nextHtml p f c" ?s2]
        obtain m where m: "m \<le> Suc MAX_PAGES - Suc p"
          and eq: "requests (snd (fetchAllPagesOfStory_loop w b (Suc p) (nextHtml p f c) True ?s2)) =
             requests ?s2 @ pageRequests w b (Suc p) (length (requests ?s2)) m"
          by blast
        have "requests (snd ?res) = requests s @ pageRequests w b p (length (requests s)) (Suc m)"
          unfolding more eq using rq by (simp add: pageRequests_Suc)
        moreover have "Suc m \<le> Suc MAX_PAGES - p" using m p by arith
        ultimately show ?thesis by (intro exI [of _ "Suc m"]) simp
      qed
    qed
  qed
qed

lemma fetchPage_ok:
  assumes "net w (length (requests s)) (targetUrl u (clock w (length (requests s)))) = Response True st doc"
    and "\<not> cloudflare doc"
  shows "fetchPage w u s = (Inr doc, s\<lparr>requests := requests s @ [targetUrl u (clock w (length (requests s)))]\<rparr>)"
  using assms by (simp add: fetchPage_def fetchPage_try_def Let_def)

lemma loop_pages:
  assumes "length cs = length ds" and "ds \<noteq> []" and "p + length ds \<le> Suc MAX_PAGES"
    and "1 \<le> p"
    and "\<forall>i<length ds. \<exists>st. net w (length (requests s) + i)
            (targetUrl (currentUrl b (p + i)) (clock w (length (requests s) + i))) = Response True st (ds ! i)"
    and "\<forall>i<length ds. \<not> cloudflare (ds ! i) \<and> extractStoryContent (ds ! i) = Inr (cs ! i)"
    and "\<forall>i<length ds - 1. nextLink (ds ! i) \<noteq> None"
    and "nextLink (last ds) = None \<or> p + length ds = Suc MAX_PAGES"
  shows "fetchAllPagesOfStory_loop w b p f True s =
           (Inr (nextHtml p f (hd cs) @ concat (map (\<lambda>x. SEPARATOR @ x) (tl cs))),
            s\<lparr>requests := requests s @ pageRequests w b p (length (requests s)) (length ds),
              delays := delays s @ replicate (length (filter (\<lambda>d. nextLink d \<noteq> None) ds)) 300\<rparr>)"
  using assms
proof (induction ds arbitrary: cs p f s)
  case Nil
  then show ?case by simp
next
  case (Cons d ds)
  obtain c cs' where cs: "cs = c # cs'" and len: "length cs' = length ds"
    using Cons.prems(1) by (cases cs) auto
  let ?n = "length (requests s)"
  let ?t = "targetUrl (currentUrl b p) (clock w ?n)"
  let ?s1 = "s\<lparr>requests := requests s @ [?t]\<rparr>"
  have p: "p \<le> MAX_PAGES" using Cons.prems(3) by simp
  from Cons.prems(5) obtain st where "net w ?n ?t = Response True st d" by fastforce
  moreover have d: "\<not> cloudflare d" "extractStoryContent d = Inr c"
    using Cons.prems(6) cs by fastforce+
  ultimately have fp: "fetchPage w (currentUrl b p) s = (Inr d, ?s1)"
    by (simp add: fetchPage_ok)
  show ?case
  proof (cases "ds = []")
    case True
    show ?thesis
    proof (cases "nextLink d")
      case None
      from loop_last [OF p fp d(2) None, of f] True cs len None show ?thesis
        by (simp add: pageRequests_Suc)
    next
      case (Some a)
      with Cons.prems(8) True have "MAX_PAGES < Suc p" by simp
      with loop_next [OF p fp d(2) Some, of f] True cs len Some show ?thesis
        by (simp add: pageRequests_Suc)
    qed
  next
    case False
    then obtain a where a: "nextLink d = Some a" using Cons.prems(7) by fastforce
    let ?s2 = "?s1\<lparr>delays := delays ?s1 @ [300]\<rparr>"
    have n2: "length (requests ?s2) = Suc ?n" by simp
    have ih: "fetchAllPagesOfStory_loop w b (Suc p) (nextHtml p f c) True ?s2 =
           (Inr (nextHtml (Suc p) (nextHtml p f c) (hd cs') @ concat (map (\<lambda>x. SEPARATOR @ x) (tl cs'))),
            ?s2\<lparr>requests := requests ?s2 @ pageRequests w b (Suc p) (length (requests ?s2)) (length ds),
              delays := delays ?s2 @ replicate (length (filter (\<lambda>d. nextLink d \<noteq> None) ds)) 300\<rparr>)"
    proof (rule Cons.IH [OF len False])
      show "Suc p + length ds \<le> Suc MAX_PAGES" using Cons.prems(3) by simp
      show "1 \<le> Suc p" by simp
      show "\<forall>i<length ds. \<exists>st. net w (length (requests ?s2) + i)
            (targetUrl (currentUrl b (Suc p + i)) (clock w (length (requests ?s2) + i))) = Response True st (ds ! i)"
      proof (intro allI impI)
        fix i assume "i < length ds"
        then have "Suc i < length (d # ds)" by simp
        with Cons.prems(5) have "\<exists>st. net w (?n + Suc i)
            (targetUrl (currentUrl b (p + Suc i)) (clock w (?n + Suc i))) = Response True st ((d # ds) ! Suc i)"
          by blast
        then show "\<exists>st. net w (length (requests ?s2) + i)
            (targetUrl (currentUrl b (Suc p + i)) (clock w (length (requests ?s2) + i))) = Response True st (ds ! i)"
          by (simp add: n2)
      qed
      show "\<forall>i<length ds. \<not> cloudflare (ds ! i) \<and> extractStoryContent (ds ! i) = Inr (cs' ! i)"
        using Cons.prems(6) cs by fastforce
      show "\<forall>i<length ds - 1. nextLink (ds ! i) \<noteq> None"
      proof (intro allI impI)
        fix i assume "i < length ds - 1"
        then have "Suc i < length (d # ds) - 1" by simp
        with Cons.prems(7) have "nextLink ((d # ds) ! Suc i) \<noteq> None" by blast
        then show "nextLink (ds ! i) \<noteq> None" by simp
      qed
      show "nextLink (last ds) = None \<or> Suc p + length ds = Suc MAX_PAGES"
        using Cons.prems(8) False by simp
    qed
    obtain c2 cs2 where cs': "cs' = c2 # cs2" using len False by (cases cs') auto
    have html: "nextHtml (Suc p) (nextHtml p f c) (hd cs') @ concat (map (\<lambda>x. SEPARATOR @ x) (tl cs'))
        = nextHtml p f (hd cs) @ concat (map (\<lambda>x. SEPARATOR @ x) (tl cs))"
      using Cons.prems(4) by (simp add: cs cs' nextHtml_def)
    show ?thesis
      unfolding loop_next [OF p fp d(2) a, of f] ih html
      using a by (simp add: pageRequests_Suc replicate_append_same)
  qed
qed

lemma map_tl_nth: "map (\<lambda>i. f (xs ! i)) [Suc 0..<length xs] = map f (tl xs)"
proof (cases xs)
  case Nil
  then show ?thesis by simp
next
  case (Cons x ys)
  have "map (\<lambda>i. f ((x # ys) ! i)) [Suc 0..<Suc (length ys)] =
        map (\<lambda>i. f ((x # ys) ! i)) (map Suc [0..<length ys])"
    by (simp only: map_Suc_upt)
  also have "\<dots> = map f (map (\<lambda>i. ys ! i) [0..<length ys])"
    by (simp only: map_map comp_def nth_Cons_Suc)
  also have "\<dots> = map f ys" by (simp only: map_nth)
  finally show ?thesis using Cons by (simp del: upt_Suc)
qed

lemma pages_html:
  "cs \<noteq> [] \<Longrightarrow> nextHtml 1 f (hd cs) @ concat (map (\<lambda>x. SEPARATOR @ x) (tl cs)) =
     cs ! 0 @ concat (map (\<lambda>i. SEPARATOR @ cs ! i) [1..<length cs])"
  using map_tl_nth [of "\<lambda>x. SEPARATOR @ x" cs] by (simp add: nextHtml_def hd_conv_nth del: upt_Suc)

lemma nth_pageRequests:
  "i < m \<Longrightarrow> pageRequests w b p n m ! i = targetUrl (currentUrl b (p + i)) (clock w (n + i))"
  by (simp add: pageRequests_def)

text \<open>
  C1: for a chapter of \<open>K\<close> pages, \<open>1 \<le> K \<le> 50\<close>, that are served in turn (page \<open>i + 1\<close> is
  document \<open>ds ! i\<close> with the fragment \<open>cs ! i\<close>), where each page but the last has a next link
  and the last has none, \<^verbatim>\<open>fetchAllPagesOfStory\<close> issues exactly \<open>K\<close> requests, those for the
  pages 1 to \<open>K\<close> in order, and returns the first fragment followed, for each further page in
  order, by the separator and that page's fragment.
\<close>

theorem fetchAllPagesOfStory_K_pages:
  assumes "1 \<le> K" and "K \<le> 50" and "length ds = K" and "length cs = K"
    and "\<forall>i<K. \<exists>st. net w (length (requests s) + i)
            (pageRequests w (split_first startUrl) 1 (length (requests s)) K ! i) = Response True st (ds ! i)"
    and "\<forall>i<K. \<not> cloudflare (ds ! i) \<and> extractStoryContent (ds ! i) = Inr (cs ! i)"
    and "\<forall>i<K - 1. nextLink (ds ! i) \<noteq> None"
    and "nextLink (ds ! (K - 1)) = None"
  shows "fst (fetchAllPagesOfStory w startUrl s) =
           Inr (cs ! 0 @ concat (map (\<lambda>i. SEPARATOR @ cs ! i) [1..<K])) \<and>
         requests (snd (fetchAllPagesOfStory w startUrl s)) =
           requests s @ pageRequests w (split_first startUrl) 1 (length (requests s)) K \<and>
         length (requests (snd (fetchAllPagesOfStory w startUrl s))) = length (requests s) + K"
proof -
  let ?b = "split_first startUrl"
  have ne: "ds \<noteq> []" "cs \<noteq> []" using assms(1,3,4) by auto
  have last: "nextLink (last ds) = None \<or> 1 + length ds = Suc MAX_PAGES"
    using assms(8,3) ne by (simp add: last_conv_nth)
  have served: "\<forall>i<length ds. \<exists>st. net w (length (requests s) + i)
            (targetUrl (currentUrl ?b (1 + i)) (clock w (length (requests s) + i))) = Response True st (ds ! i)"
    using assms(5,3) by (simp add: nth_pageRequests)
  have "fetchAllPagesOfStory_loop w ?b 1 [] True s =
           (Inr (nextHtml 1 [] (hd cs) @ concat (map (\<lambda>x. SEPARATOR @ x) (tl cs))),
            s\<lparr>requests := requests s @ pageRequests w ?b 1 (length (requests s)) (length ds),
              delays := delays s @ replicate (length (filter (\<lambda>d. nextLink d \<noteq> None) ds)) 300\<rparr>)"
  proof (rule loop_pages [OF _ ne(1) _ _ served _ _ last])
    show "length cs = length ds" using assms(3,4) by simp
    show "1 + length ds \<le> Suc MAX_PAGES" using assms(2,3) by (simp add: MAX_PAGES_def)
    show "(1::nat) \<le> 1" by simp
    show "\<forall>i<length ds. \<not> cloudflare (ds ! i) \<and> extractStoryContent (ds ! i) = Inr (cs ! i)"
      using assms(6,3) by simp
    show "\<forall>i<length ds - 1. nextLink (ds ! i) \<noteq> None" using assms(7,3) by simp
  qed
  then show ?thesis
    using pages_html [OF ne(2), of "[]"] assms(3,4) by (simp add: fetchAllPagesOfStory_def)
qed

lemma page_with_next_content: "extractStoryContent page_with_next = Inr ''<p>one</p>''"
  by (simp add: extractStoryContent_def querySelector_def orElem_def page_with_next_def)

lemma last_page_content: "extractStoryContent last_page = Inr ''<p>two</p>''"
  by (simp add: extractStoryContent_def querySelector_def orElem_def last_page_def)

lemma page_with_next_next: "nextLink page_with_next \<noteq> None"
  by (simp add: nextLink_def querySelectorAll_def page_with_next_def isNextLink_def trim_def
      isWhiteSpace_def toLowerCase_def lowerChar_def Let_def char_of_eq_iff)

lemma last_page_next: "nextLink last_page = None"
  by (simp add: nextLink_def querySelectorAll_def last_page_def isNextLink_def trim_def
      isWhiteSpace_def toLowerCase_def lowerChar_def Let_def char_of_eq_iff)

lemma pages_not_cloudflare: "\<not> cloudflare page_with_next" "\<not> cloudflare last_page"
  by (simp_all add: cloudflare_def page_with_next_def last_page_def)

theorem fetchAllPagesOfStory_K_pages_witness:
  "fst (fetchAllPagesOfStory two_page_world ''https://www.literotica.com/s/a-story?page=7'' start_state) =
     Inr (''<p>one</p>'' @ SEPARATOR @ ''<p>two</p>'') \<and>
   length (requests (snd (fetchAllPagesOfStory two_page_world
      ''https://www.literotica.com/s/a-story?page=7'' start_state))) = 2"
  using fetchAllPagesOfStory_K_pages [of 2 "[page_with_next, last_page]" "[''<p>one</p>'', ''<p>two</p>'']"
      two_page_world start_state "''https://www.literotica.com/s/a-story?page=7''"]
  by (simp add: less_Suc_eq numeral_2_eq_2 two_page_world_def start_state_def
      page_with_next_content last_page_content page_with_next_next last_page_next pages_not_cloudflare)

text \<open>
  C2: no execution of the pagination loop issues more than 50 requests; and when every page
  served has a next link (the pages \<open>ds\<close> with fragments \<open>cs\<close>), the loop ends after exactly 50
  requests without an error and returns all 50 fragments, joined as in every chapter of
  several pages by the separator.
\<close>

theorem fetchAllPagesOfStory_bound:
  "length (requests (snd (fetchAllPagesOfStory w startUrl s))) \<le> length (requests s) + 50 \<and>
   (length ds = 50 \<and> length cs = 50 \<and>
    (\<forall>i<50. \<exists>st. net w (length (requests s) + i)
        (pageRequests w (split_first startUrl) 1 (length (requests s)) 50 ! i) = Response True st (ds ! i)) \<and>
    (\<forall>i<50. \<not> cloudflare (ds ! i) \<and> extractStoryContent (ds ! i) = Inr (cs ! i) \<and>
        nextLink (ds ! i) \<noteq> None)
    \<longrightarrow> fst (fetchAllPagesOfStory w startUrl s) =
           Inr (cs ! 0 @ concat (map (\<lambda>i. SEPARATOR @ cs ! i) [1..<50])) \<and>
         requests (snd (fetchAllPagesOfStory w startUrl s)) =
           requests s @ pageRequests w (split_first startUrl) 1 (length (requests s)) 50 \<and>
         length (requests (snd (fetchAllPagesOfStory w startUrl s))) = length (requests s) + 50)"
proof (intro conjI impI)
  let ?b = "split_first startUrl"
  obtain m where "m \<le> Suc MAX_PAGES - 1"
    and "requests (snd (fetchAllPagesOfStory_loop w ?b 1 [] True s)) =
           requests s @ pageRequests w ?b 1 (length (requests s)) m"
    using loop_requests_True [of 1 w ?b "[]" s] by blast
  then show "length (requests (snd (fetchAllPagesOfStory w startUrl s))) \<le> length (requests s) + 50"
    by (simp add: fetchAllPagesOfStory_def MAX_PAGES_def)
next
  let ?b = "split_first startUrl"
  assume h: "length ds = 50 \<and> length cs = 50 \<and>
    (\<forall>i<50. \<exists>st. net w (length (requests s) + i)
        (pageRequests w ?b 1 (length (requests s)) 50 ! i) = Response True st (ds ! i)) \<and>
    (\<forall>i<50. \<not> cloudflare (ds ! i) \<and> extractStoryContent (ds ! i) = Inr (cs ! i) \<and>
        nextLink (ds ! i) \<noteq> None)"
  then have len: "length ds = 50" "length cs = 50" by simp_all
  then have ne: "ds \<noteq> []" "cs \<noteq> []" by auto
  have served: "\<forall>i<length ds. \<exists>st. net w (length (requests s) + i)
            (targetUrl (currentUrl ?b (1 + i)) (clock w (length (requests s) + i))) = Response True st (ds ! i)"
    using h by (simp add: nth_pageRequests)
  have "fetchAllPagesOfStory_loop w ?b 1 [] True s =
           (Inr (nextHtml 1 [] (hd cs) @ concat (map (\<lambda>x. SEPARATOR @ x) (tl cs))),
            s\<lparr>requests := requests s @ pageRequests w ?b 1 (length (requests s)) (length ds),
              delays := delays s @ replicate (length (filter (\<lambda>d. nextLink d \<noteq> None) ds)) 300\<rparr>)"
  proof (rule loop_pages [OF _ ne(1) _ _ served])
    show "length cs = length ds" using len by simp
    show "1 + length ds \<le> Suc MAX_PAGES" using len by (simp add: MAX_PAGES_def)
    show "(1::nat) \<le> 1" by simp
    show "\<forall>i<length ds. \<not> cloudflare (ds ! i) \<and> extractStoryContent (ds ! i) = Inr (cs ! i)"
      using h by simp
    show "\<forall>i<length ds - 1. nextLink (ds ! i) \<noteq> None" using h by simp
    show "nextLink (last ds) = None \<or> 1 + length ds = Suc MAX_PAGES"
      using len by (simp add: MAX_PAGES_def)
  qed
  then have res: "fetchAllPagesOfStory w startUrl s =
      (Inr (cs ! 0 @ concat (map (\<lambda>i. SEPARATOR @ cs ! i) [1..<50])),
       s\<lparr>requests := requests s @ pageRequests w ?b 1 (length (requests s)) 50,
         delays := delays s @ replicate (length (filter (\<lambda>d. nextLink d \<noteq> None) ds)) 300\<rparr>)"
    using pages_html [OF ne(2), of "[]"] len by (simp add: fetchAllPagesOfStory_def)
  show "fst (fetchAllPagesOfStory w startUrl s) =
           Inr (cs ! 0 @ concat (map (\<lambda>i. SEPARATOR @ cs ! i) [1..<50]))"
    by (simp add: res)
  show "requests (snd (fetchAllPagesOfStory w startUrl s)) =
           requests s @ pageRequests w ?b 1 (length (requests s)) 50"
    by (simp add: res)
  show "length (requests (snd (fetchAllPagesOfStory w startUrl s))) = length (requests s) + 50"
    by (simp add: res)
qed

theorem fetchAllPagesOfStory_bound_witness:
  "fst (fetchAllPagesOfStory endless_world ''https://www.literotica.com/s/a-story'' start_state) =
     Inr (''<p>one</p>'' @ concat (replicate 49 (SEPARATOR @ ''<p>one</p>''))) \<and>
   length (requests (snd (fetchAllPagesOfStory endless_world
      ''https://www.literotica.com/s/a-story'' start_state))) = 50"
proof -
  have "map (\<lambda>i. SEPARATOR @ replicate 50 ''<p>one</p>'' ! i) [1..<50] =
        map (\<lambda>i. SEPARATOR @ ''<p>one</p>'') [1..<50]"
    by (rule map_cong) simp_all
  also have "\<dots> = replicate 49 (SEPARATOR @ ''<p>one</p>'')"
    by (simp add: map_replicate_const)
  finally have m: "map (\<lambda>i. SEPARATOR @ replicate 50 ''<p>one</p>'' ! i) [1..<50] =
      replicate 49 (SEPARATOR @ ''<p>one</p>'')" .
  show ?thesis
    using fetchAllPagesOfStory_bound [of endless_world "''https://www.literotica.com/s/a-story''"
        start_state "replicate 50 page_with_next" "replicate 50 ''<p>one</p>''"]
    unfolding m
    by (simp add: endless_world_def start_state_def page_with_next_content page_with_next_next
        pages_not_cloudflare)
qed

lemma str_includes_single: "str_includes s [c] \<longleftrightarrow> c \<in> set s"
  by (induction s) auto

lemma split_first_no_query: "\<not> str_includes (split_first u) ''?''"
proof -
  have "CHR ''?'' \<notin> set (takeWhile (\<lambda>c. c \<noteq> CHR ''?'') u)"
    using set_takeWhileD by fastforce
  then show ?thesis by (simp add: str_includes_single split_first_def)
qed

lemma split_first_rest:
  "\<exists>rest. u = split_first u @ rest \<and> (rest = [] \<or> hd rest = CHR ''?'')"
proof (intro exI conjI)
  show "u = split_first u @ dropWhile (\<lambda>c. c \<noteq> CHR ''?'') u"
    by (simp add: split_first_def)
  show "dropWhile (\<lambda>c. c \<noteq> CHR ''?'') u = [] \<or> hd (dropWhile (\<lambda>c. c \<noteq> CHR ''?'') u) = CHR ''?''"
    using hd_dropWhile [of "\<lambda>c. c \<noteq> CHR ''?''" u] by blast
qed

lemma fetchPage_Inr:
  "fetchPage w u s = (Inr doc, s1) \<Longrightarrow>
     (\<exists>st. net w (length (requests s)) (targetUrl u (clock w (length (requests s)))) = Response True st doc) \<and>
     \<not> cloudflare doc"
  by (auto simp add: fetchPage_def fetchPage_try_def Let_def split: http_result.splits if_splits)

lemma fetchPage_Inl:
  "fetchPage w u s = (Inl e, s1) \<Longrightarrow>
     \<not> (\<exists>st doc. net w (length (requests s)) (targetUrl u (clock w (length (requests s)))) = Response True st doc \<and>
          \<not> cloudflare doc)"
  by (auto simp add: fetchPage_def fetchPage_try_def Let_def split: http_result.splits if_splits)

lemma advances_0 [simp]: "advances w b p n 0"
  by (simp add: advances_def)

lemma advances_Suc:
  "advances w b p n (Suc j) \<longleftrightarrow> pageGoesOn w b p n \<and> advances w b (Suc p) (Suc n) j"
proof -
  have "(\<forall>i<Suc j. Q i) \<longleftrightarrow> Q 0 \<and> (\<forall>i<j. Q (Suc i))" for Q :: "nat \<Rightarrow> bool"
    by (metis less_Suc_eq_0_disj)
  then show ?thesis unfolding advances_def by simp
qed

lemma goesOn_fetch_fail:
  "fetchPage w (currentUrl b p) s = (Inl e, s1) \<Longrightarrow> \<not> pageGoesOn w b p (length (requests s))"
  using fetchPage_Inl [of w "currentUrl b p" s e s1] by (auto simp: pageGoesOn_def)

lemma goesOn_content_fail:
  assumes "fetchPage w (currentUrl b p) s = (Inr doc, s1)" and "extractStoryContent doc = Inl e"
  shows "\<not> pageGoesOn w b p (length (requests s))"
  using fetchPage_Inr [OF assms(1)] assms(2) by (auto simp: pageGoesOn_def)

lemma goesOn_last:
  assumes "fetchPage w (currentUrl b p) s = (Inr doc, s1)" and "nextLink doc = None"
  shows "\<not> pageGoesOn w b p (length (requests s))"
  using fetchPage_Inr [OF assms(1)] assms(2) by (auto simp: pageGoesOn_def)

lemma goesOn_more:
  assumes "fetchPage w (currentUrl b p) s = (Inr doc, s1)" and "extractStoryContent doc = Inr c"
    and "nextLink doc = Some a"
  shows "pageGoesOn w b p (length (requests s))"
  using fetchPage_Inr [OF assms(1)] assms(2,3) by (auto simp: pageGoesOn_def)

lemma trace_stop:
  assumes p: "p \<le> MAX_PAGES"
    and rq: "requests s1 = requests s @ [targetUrl (currentUrl b p) (clock w (length (requests s)))]"
    and stop: "\<not> pageGoesOn w b p (length (requests s))"
  shows "\<exists>m. m \<le> Suc MAX_PAGES - p \<and> (p \<le> MAX_PAGES \<longrightarrow> 1 \<le> m) \<and>
       requests s1 = requests s @ pageRequests w b p (length (requests s)) m \<and>
       (\<forall>j. j < Suc MAX_PAGES - p \<and> advances w b p (length (requests s)) j \<longrightarrow> j < m) \<and>
       (\<forall>j. \<not> advances w b p (length (requests s)) j \<longrightarrow> m \<le> j)"
proof (intro exI [of _ 1] conjI allI impI)
  show "1 \<le> Suc MAX_PAGES - p" using p by simp
  show "(1::nat) \<le> 1" by simp
  show "requests s1 = requests s @ pageRequests w b p (length (requests s)) 1"
    using rq by (simp add: pageRequests_Suc)
next
  fix j assume "j < Suc MAX_PAGES - p \<and> advances w b p (length (requests s)) j"
  then have "advances w b p (length (requests s)) j" by simp
  with stop show "j < 1" by (cases j) (simp_all add: advances_Suc)
next
  fix j assume "\<not> advances w b p (length (requests s)) j"
  then show "1 \<le> j" by (cases j) simp_all
qed

lemma trace_more:
  assumes p: "p \<le> MAX_PAGES"
    and rq: "requests s2 = requests s @ [targetUrl (currentUrl b p) (clock w (length (requests s)))]"
    and go: "pageGoesOn w b p (length (requests s))"
    and ih: "\<exists>m. m \<le> Suc MAX_PAGES - Suc p \<and> (Suc p \<le> MAX_PAGES \<longrightarrow> 1 \<le> m) \<and>
       rs = requests s2 @ pageRequests w b (Suc p) (length (requests s2)) m \<and>
       (\<forall>j. j < Suc MAX_PAGES - Suc p \<and> advances w b (Suc p) (length (requests s2)) j \<longrightarrow> j < m) \<and>
       (\<forall>j. \<not> advances w b (Suc p) (length (requests s2)) j \<longrightarrow> m \<le> j)"
  shows "\<exists>m. m \<le> Suc MAX_PAGES - p \<and> (p \<le> MAX_PAGES \<longrightarrow> 1 \<le> m) \<and>
       rs = requests s @ pageRequests w b p (length (requests s)) m \<and>
       (\<forall>j. j < Suc MAX_PAGES - p \<and> advances w b p (length (requests s)) j \<longrightarrow> j < m) \<and>
       (\<forall>j. \<not> advances w b p (length (requests s)) j \<longrightarrow> m \<le> j)"
proof -
  let ?n = "length (requests s)"
  have n2: "length (requests s2) = Suc ?n" using rq by simp
  from ih obtain m where m: "m \<le> Suc MAX_PAGES - Suc p"
    and eq: "rs = requests s2 @ pageRequests w b (Suc p) (Suc ?n) m"
    and up: "\<forall>j. j < Suc MAX_PAGES - Suc p \<and> advances w b (Suc p) (Suc ?n) j \<longrightarrow> j < m"
    and down: "\<forall>j. \<not> advances w b (Suc p) (Suc ?n) j \<longrightarrow> m \<le> j"
    unfolding n2 by (elim exE conjE)
  show ?thesis
  proof (intro exI [of _ "Suc m"] conjI allI impI)
    show "Suc m \<le> Suc MAX_PAGES - p" using m p by arith
    show "1 \<le> Suc m" by simp
    show "rs = requests s @ pageRequests w b p ?n (Suc m)"
      using eq rq by (simp add: pageRequests_Suc)
  next
    fix j assume j: "j < Suc MAX_PAGES - p \<and> advances w b p ?n j"
    show "j < Suc m"
    proof (cases j)
      case 0
      then show ?thesis by simp
    next
      case (Suc j')
      with j have "advances w b (Suc p) (Suc ?n) j'" by (simp add: advances_Suc)
      moreover from j Suc have "j' < Suc MAX_PAGES - Suc p" by arith
      ultimately have "j' < Suc MAX_PAGES - Suc p" and "advances w b (Suc p) (Suc ?n) j'"
        by simp_all
      with up have "j' < m" by simp
      with Suc show ?thesis by simp
    qed
  next
    fix j assume j: "\<not> advances w b p ?n j"
    show "Suc m \<le> j"
    proof (cases j)
      case 0
      with j show ?thesis by simp
    next
      case (Suc j')
      with j go have "\<not> advances w b (Suc p) (Suc ?n) j'" by (simp add: advances_Suc)
      with down have "m \<le> j'" by simp
      with Suc show ?thesis by simp
    qed
  qed
qed

lemma loop_trace:
  "\<exists>m. m \<le> Suc MAX_PAGES - p \<and> (p \<le> MAX_PAGES \<longrightarrow> 1 \<le> m) \<and>
       requests (snd (fetchAllPagesOfStory_loop w b p f True s)) =
         requests s @ pageRequests w b p (length (requests s)) m \<and>
       (\<forall>j. j < Suc MAX_PAGES - p \<and> advances w b p (length (requests s)) j \<longrightarrow> j < m) \<and>
       (\<forall>j. \<not> advances w b p (length (requests s)) j \<longrightarrow> m \<le> j)"
proof (induction rule: loop_induct [where P = "\<lambda>p f s res.
     \<exists>m. m \<le> Suc MAX_PAGES - p \<and> (p \<le> MAX_PAGES \<longrightarrow> 1 \<le> m) \<and>
       requests (snd res) = requests s @ pageRequests w b p (length (requests s)) m \<and>
       (\<forall>j. j < Suc MAX_PAGES - p \<and> advances w b p (length (requests s)) j \<longrightarrow> j < m) \<and>
       (\<forall>j. \<not> advances w b p (length (requests s)) j \<longrightarrow> m \<le> j)"])
  case (over p f s)
  then show ?case by (intro exI [of _ 0]) simp
next
  case (fetch_fail p f s e s1)
  have "requests s1 = requests s @ [targetUrl (currentUrl b p) (clock w (length (requests s)))]"
    using fetchPage_requests [of w "currentUrl b p" s] fetch_fail(2) by simp
  from trace_stop [OF fetch_fail(1) this goesOn_fetch_fail [OF fetch_fail(2)]]
  show ?case by simp
next
  case (content_fail p f s doc s1 e)
  have "requests s1 = requests s @ [targetUrl (currentUrl b p) (clock w (length (requests s)))]"
    using fetchPage_requests [of w "currentUrl b p" s] content_fail(2) by simp
  from trace_stop [OF content_fail(1) this goesOn_content_fail [OF content_fail(2,3)]]
  show ?case by simp
next
  case (last p f s doc s1 c)
  have "requests s1 = requests s @ [targetUrl (currentUrl b p) (clock w (length (requests s)))]"
    using fetchPage_requests [of w "currentUrl b p" s] last(2) by simp
  from trace_stop [OF last(1) this goesOn_last [OF last(2,4)]]
  show ?case by simp
next
  case (more p f s doc s1 c a res)
  have "requests (s1\<lparr>delays := delays s1 @ [300]\<rparr>) =
      requests s @ [targetUrl (currentUrl b p) (clock w (length (requests s)))]"
    using fetchPage_requests [of w "currentUrl b p" s] more(2) by simp
  from trace_more [OF more(1) this goesOn_more [OF more(2,3,4)] more(5)]
  show ?case .
qed

text \<open>
  C8: the base address is the start address up to its first question mark, so it carries no
  query string. The requests of the loop are exactly those that \<^verbatim>\<open>fetchPage\<close> issues, in this
  order, for page 1 at the base address itself and for every further page \<open>N\<close> at the base
  address followed by \<^verbatim>\<open>?page=N\<close>: \<open>m\<close> requests, where \<open>m\<close> is 50 when the first 50 pages all go
  on (are served, have content and a next link) and otherwise the number of the first page that
  does not. So whenever the pages before a page \<open>N\<close>, \<open>1 < N \<le> 50\<close>, all go on, the request number
  \<open>N\<close> of the loop is there and is the one for the base address followed by \<^verbatim>\<open>?page=N\<close>.
\<close>

theorem fetchAllPagesOfStory_page_urls:
  "(\<exists>rest. startUrl = split_first startUrl @ rest \<and> (rest = [] \<or> hd rest = CHR ''?'')) \<and>
   \<not> str_includes (split_first startUrl) ''?'' \<and>
   currentUrl (split_first startUrl) 1 = split_first startUrl \<and>
   (\<forall>N>1. currentUrl (split_first startUrl) N = split_first startUrl @ ''?page='' @ show_nat N) \<and>
   (\<forall>u s'. requests (snd (fetchPage w u s')) =
             requests s' @ [targetUrl u (clock w (length (requests s')))]) \<and>
   (\<exists>m. 1 \<le> m \<and> m \<le> 50 \<and>
      requests (snd (fetchAllPagesOfStory w startUrl s)) =
        requests s @ map (\<lambda>k. targetUrl (if k = 0 then split_first startUrl
                                          else split_first startUrl @ ''?page='' @ show_nat (k + 1))
                                 (clock w (length (requests s) + k))) [0..<m] \<and>
      (\<forall>j<50. advances w (split_first startUrl) 1 (length (requests s)) j \<longrightarrow> j < m) \<and>
      (\<forall>j. \<not> advances w (split_first startUrl) 1 (length (requests s)) j \<longrightarrow> m \<le> j)) \<and>
   (\<forall>N. 1 < N \<and> N \<le> 50 \<and> advances w (split_first startUrl) 1 (length (requests s)) (N - 1) \<longrightarrow>
      length (requests s) + N \<le> length (requests (snd (fetchAllPagesOfStory w startUrl s))) \<and>
      requests (snd (fetchAllPagesOfStory w startUrl s)) ! (length (requests s) + (N - 1)) =
        targetUrl (split_first startUrl @ ''?page='' @ show_nat N) (clock w (length (requests s) + (N - 1))))"
proof -
  let ?b = "split_first startUrl"
  let ?n = "length (requests s)"
  let ?rs = "requests (snd (fetchAllPagesOfStory w startUrl s))"
  let ?f = "\<lambda>k. targetUrl (if k = 0 then ?b else ?b @ ''?page='' @ show_nat (k + 1)) (clock w (?n + k))"
  have f: "pageRequests w ?b (Suc 0) ?n m = map ?f [0..<m]" for m
    by (simp add: pageRequests_def currentUrl_def)
  obtain m where m1: "1 \<le> m" and m50: "m \<le> 50"
    and eq: "?rs = requests s @ map ?f [0..<m]"
    and up: "\<forall>j<50. advances w ?b 1 ?n j \<longrightarrow> j < m"
    and down: "\<forall>j. \<not> advances w ?b 1 ?n j \<longrightarrow> m \<le> j"
  proof -
    from loop_trace [of 1 w ?b "[]" s]
    obtain m where "m \<le> Suc MAX_PAGES - 1" and "1 \<le> MAX_PAGES \<longrightarrow> 1 \<le> m"
      and "requests (snd (fetchAllPagesOfStory_loop w ?b 1 [] True s)) =
             requests s @ pageRequests w ?b 1 ?n m"
      and "\<forall>j. j < Suc MAX_PAGES - 1 \<and> advances w ?b 1 ?n j \<longrightarrow> j < m"
      and "\<forall>j. \<not> advances w ?b 1 ?n j \<longrightarrow> m \<le> j"
      by (elim exE conjE)
    then have "1 \<le> m" "m \<le> 50" "?rs = requests s @ map ?f [0..<m]"
      "\<forall>j<50. advances w ?b 1 ?n j \<longrightarrow> j < m" "\<forall>j. \<not> advances w ?b 1 ?n j \<longrightarrow> m \<le> j"
      by (simp_all add: MAX_PAGES_def fetchAllPagesOfStory_def f)
    then show ?thesis by (rule that)
  qed
  have pageN: "?n + N \<le> length ?rs \<and> ?rs ! (?n + (N - 1)) =
        targetUrl (?b @ ''?page='' @ show_nat N) (clock w (?n + (N - 1)))"
    if N: "1 < N \<and> N \<le> 50 \<and> advances w ?b 1 ?n (N - 1)" for N
  proof -
    note N1 = N [THEN conjunct1]
    note N50 = N [THEN conjunct2, THEN conjunct1]
    note adv = N [THEN conjunct2, THEN conjunct2]
    from N50 N1 have "N - 1 < 50" by arith
    with adv up [rule_format, of "N - 1"] have lt: "N - 1 < m" by simp
    then have "?n + N \<le> length ?rs" using N1 by (simp add: eq)
    moreover have "?rs ! (?n + (N - 1)) = ?f (N - 1)"
      using lt by (simp add: eq nth_append)
    ultimately show ?thesis using N1 by simp
  qed
  have loop: "\<exists>m. 1 \<le> m \<and> m \<le> 50 \<and> ?rs = requests s @ map ?f [0..<m] \<and>
      (\<forall>j<50. advances w ?b 1 ?n j \<longrightarrow> j < m) \<and> (\<forall>j. \<not> advances w ?b 1 ?n j \<longrightarrow> m \<le> j)"
    using m1 m50 eq up down by (intro exI [of _ m] conjI)
  show ?thesis
  proof (intro conjI)
    show "\<exists>rest. startUrl = ?b @ rest \<and> (rest = [] \<or> hd rest = CHR ''?'')"
      by (rule split_first_rest)
    show "\<not> str_includes ?b ''?''" by (rule split_first_no_query)
    show "currentUrl ?b 1 = ?b" by (simp add: currentUrl_def)
    show "\<forall>N>1. currentUrl ?b N = ?b @ ''?page='' @ show_nat N" by (simp add: currentUrl_def)
    show "\<forall>u s'. requests (snd (fetchPage w u s')) =
             requests s' @ [targetUrl u (clock w (length (requests s')))]"
      by (simp add: fetchPage_requests)
    show "\<exists>m. 1 \<le> m \<and> m \<le> 50 \<and> ?rs = requests s @ map ?f [0..<m] \<and>
      (\<forall>j<50. advances w ?b 1 ?n j \<longrightarrow> j < m) \<and> (\<forall>j. \<not> advances w ?b 1 ?n j \<longrightarrow> m \<le> j)"
      by (rule loop)
    show "\<forall>N. 1 < N \<and> N \<le> 50 \<and> advances w ?b 1 ?n (N - 1) \<longrightarrow>
      ?n + N \<le> length ?rs \<and> ?rs ! (?n + (N - 1)) =
        targetUrl (?b @ ''?page='' @ show_nat N) (clock w (?n + (N - 1)))"
      using pageN by (intro allI impI)
  qed
qed

lemma target_page1_example:
  "targetUrl ''https://www.literotica.com/s/a-story'' 1700000000000 =
   ''https://corsproxy.io/?https%3A%2F%2Fwww.literotica.com%2Fs%2Fa-story%3Ft%3D1700000000000''"
proof -
  have "show_nat 1700000000000 = ''1700000000000''"
    by (simp add: show_nat.simps digit_def char_of_eq_iff)
  then show ?thesis
    by (simp add: targetUrl_def cacheBuster_def CORS_PROXY_def str_includes_single
        encodeURIComponent_def encodeChar_def unreserved_def pct_def hexdigit_def Let_def)
qed

lemma target_page2_example:
  "targetUrl ''https://www.literotica.com/s/a-story?page=2'' 1700000000001 =
   ''https://corsproxy.io/?https%3A%2F%2Fwww.literotica.com%2Fs%2Fa-story%3Fpage%3D2%26t%3D1700000000001''"
proof -
  have "show_nat 1700000000001 = ''1700000000001''"
    by (simp add: show_nat.simps digit_def char_of_eq_iff)
  then show ?thesis
    by (simp add: targetUrl_def cacheBuster_def CORS_PROXY_def str_includes_single
        encodeURIComponent_def encodeChar_def unreserved_def pct_def hexdigit_def Let_def)
qed

lemma split_first_example:
  "split_first ''https://www.literotica.com/s/a-story?page=7'' = ''https://www.literotica.com/s/a-story''"
  by (simp add: split_first_def)

theorem fetchAllPagesOfStory_page_urls_witness:
  "requests (snd (fetchAllPagesOfStory two_page_world
      ''https://www.literotica.com/s/a-story?page=7'' start_state)) =
   [''https://corsproxy.io/?https%3A%2F%2Fwww.literotica.com%2Fs%2Fa-story%3Ft%3D1700000000000'',
    ''https://corsproxy.io/?https%3A%2F%2Fwww.literotica.com%2Fs%2Fa-story%3Fpage%3D2%26t%3D1700000000001'']"
proof -
  let ?start = "''https://www.literotica.com/s/a-story?page=7''"
  let ?b = "''https://www.literotica.com/s/a-story''"
  let ?rs = "requests (snd (fetchAllPagesOfStory two_page_world ?start start_state))"
  let ?f = "\<lambda>k. targetUrl (if k = 0 then ?b else ?b @ ''?page='' @ show_nat (k + 1)) (1700000000000 + k)"
  note inst = fetchAllPagesOfStory_page_urls [of ?start two_page_world start_state,
      unfolded split_first_example]
  note loop = inst [THEN conjunct2, THEN conjunct2, THEN conjunct2, THEN conjunct2, THEN conjunct2,
      THEN conjunct1]
  have n: "length (requests start_state) = 0" by (simp add: start_state_def)
  from loop obtain m where m: "1 \<le> m \<and> m \<le> 50 \<and>
      ?rs = requests start_state @
        map (\<lambda>k. targetUrl (if k = 0 then ?b else ?b @ ''?page='' @ show_nat (k + 1))
                (clock two_page_world (length (requests start_state) + k))) [0..<m] \<and>
      (\<forall>j<50. advances two_page_world ?b 1 (length (requests start_state)) j \<longrightarrow> j < m) \<and>
      (\<forall>j. \<not> advances two_page_world ?b 1 (length (requests start_state)) j \<longrightarrow> m \<le> j)" ..
  note eq = m [THEN conjunct2, THEN conjunct2, THEN conjunct1]
  note up = m [THEN conjunct2, THEN conjunct2, THEN conjunct2, THEN conjunct1, unfolded n]
  note down = m [THEN conjunct2, THEN conjunct2, THEN conjunct2, THEN conjunct2, unfolded n]
  have go1: "pageGoesOn two_page_world ?b 1 0"
    unfolding pageGoesOn_def
    using pages_not_cloudflare(1) page_with_next_content page_with_next_next
    by (intro exI [of _ 200] exI [of _ page_with_next] exI [of _ "''<p>one</p>''"])
       (simp add: two_page_world_def)
  have stop2: "\<not> pageGoesOn two_page_world ?b 2 1"
    using last_page_next by (simp add: pageGoesOn_def two_page_world_def)
  have "advances two_page_world ?b 1 0 1" using go1 by (simp add: advances_def)
  with up [rule_format, of 1] have "1 < m" by simp
  moreover have "\<not> advances two_page_world ?b 1 0 2"
    using stop2 by (simp add: numeral_2_eq_2 advances_Suc)
  with down [rule_format, of 2] have "m \<le> 2" by simp
  ultimately have m2: "m = 2" by arith
  have "?rs = [?f 0, ?f 1]"
    using eq unfolding m2 by (simp add: start_state_def two_page_world_def numeral_2_eq_2)
  moreover have "show_nat (Suc (Suc 0)) = ''2''"
    by (simp add: show_nat.simps [of "Suc (Suc 0)"] digit_def char_of_eq_iff)
  ultimately show ?thesis
    by (simp add: target_page1_example target_page2_example)
qed

text \<open>
  C10: for the address \<open>u\<close> it is given, \<^verbatim>\<open>fetchPage\<close> issues one request, for the proxy prefix
  followed by the percent-encoding of \<open>u\<close> with the parameter \<open>t\<close> of the current time appended
  (after \<open>&\<close> when \<open>u\<close> has a question mark, after \<open>?\<close> otherwise), which is never \<open>u\<close> itself;
  so every request of the pagination loop, the one for page 1 included, goes to the proxy
  and none is for the address the loop hands to \<^verbatim>\<open>fetchPage\<close>.
\<close>

theorem fetchPage_request_through_proxy:
  "requests (snd (fetchPage w u s)) =
     requests s @ [CORS_PROXY @ encodeURIComponent
        (u @ (if str_includes u ''?'' then ''&t='' else ''?t='') @ show_nat (clock w (length (requests s))))] \<and>
   CORS_PROXY @ encodeURIComponent
        (u @ (if str_includes u ''?'' then ''&t='' else ''?t='') @ show_nat (clock w (length (requests s)))) \<noteq> u \<and>
   (\<exists>m. 1 \<le> m \<and>
      requests (snd (fetchAllPagesOfStory w startUrl s)) =
        requests s @ pageRequests w (split_first startUrl) 1 (length (requests s)) m \<and>
      (\<forall>k<m. pageRequests w (split_first startUrl) 1 (length (requests s)) m ! k =
                 targetUrl (currentUrl (split_first startUrl) (1 + k)) (clock w (length (requests s) + k)) \<and>
              startsWith (pageRequests w (split_first startUrl) 1 (length (requests s)) m ! k) CORS_PROXY \<and>
              pageRequests w (split_first startUrl) 1 (length (requests s)) m ! k \<noteq>
                 currentUrl (split_first startUrl) (1 + k)))"
proof (intro conjI)
  let ?n = "length (requests s)"
  have t: "CORS_PROXY @ encodeURIComponent
        (u @ (if str_includes u ''?'' then ''&t='' else ''?t='') @ show_nat (clock w ?n)) =
        targetUrl u (clock w ?n)"
    by (simp add: targetUrl_def cacheBuster_def)
  show "requests (snd (fetchPage w u s)) =
     requests s @ [CORS_PROXY @ encodeURIComponent
        (u @ (if str_includes u ''?'' then ''&t='' else ''?t='') @ show_nat (clock w ?n))]"
    unfolding t by (rule fetchPage_requests)
  show "CORS_PROXY @ encodeURIComponent
        (u @ (if str_includes u ''?'' then ''&t='' else ''?t='') @ show_nat (clock w ?n)) \<noteq> u"
    unfolding t by (rule targetUrl_neq)
  let ?b = "split_first startUrl"
  obtain m where m: "1 \<le> m"
    and eq: "requests (snd (fetchAllPagesOfStory_loop w ?b 1 [] True s)) =
           requests s @ pageRequests w ?b 1 ?n m"
    using loop_requests_True [of 1 w ?b "[]" s] by (auto simp: MAX_PAGES_def)
  have "\<forall>k<m. pageRequests w ?b 1 ?n m ! k = targetUrl (currentUrl ?b (1 + k)) (clock w (?n + k)) \<and>
              startsWith (pageRequests w ?b 1 ?n m ! k) CORS_PROXY \<and>
              pageRequests w ?b 1 ?n m ! k \<noteq> currentUrl ?b (1 + k)"
    by (simp add: nth_pageRequests targetUrl_neq startsWith_def) (simp add: targetUrl_def)
  moreover have "requests (snd (fetchAllPagesOfStory w startUrl s)) = requests s @ pageRequests w ?b 1 ?n m"
    using eq by (simp add: fetchAllPagesOfStory_def)
  ultimately show "\<exists>m. 1 \<le> m \<and>
      requests (snd (fetchAllPagesOfStory w startUrl s)) = requests s @ pageRequests w ?b 1 ?n m \<and>
      (\<forall>k<m. pageRequests w ?b 1 ?n m ! k = targetUrl (currentUrl ?b (1 + k)) (clock w (?n + k)) \<and>
              startsWith (pageRequests w ?b 1 ?n m ! k) CORS_PROXY \<and>
              pageRequests w ?b 1 ?n m ! k \<noteq> currentUrl ?b (1 + k))"
    using m by blast
qed

lemma show_nat_example: "show_nat 1700000000000 = ''1700000000000''"
  by (simp add: show_nat.simps digit_def char_of_eq_iff)

lemma encode_example:
  "encodeURIComponent ''https://www.literotica.com/s/a-story?t=1700000000000'' =
   ''https%3A%2F%2Fwww.literotica.com%2Fs%2Fa-story%3Ft%3D1700000000000''"
  by (simp add: encodeURIComponent_def encodeChar_def unreserved_def pct_def hexdigit_def Let_def)

lemma proxied_example:
  "CORS_PROXY @ encodeURIComponent (''https://www.literotica.com/s/a-story'' @ ''?t='' @ show_nat 1700000000000) =
   ''https://corsproxy.io/?https%3A%2F%2Fwww.literotica.com%2Fs%2Fa-story%3Ft%3D1700000000000''"
  using encode_example by (simp add: show_nat_example CORS_PROXY_def)

lemma no_query_example: "\<not> str_includes ''https://www.literotica.com/s/a-story'' ''?''"
  by (simp add: str_includes_single)

theorem fetchPage_request_through_proxy_witness:
  "requests (snd (fetchPage two_page_world ''https://www.literotica.com/s/a-story'' start_state)) =
     [''https://corsproxy.io/?https%3A%2F%2Fwww.literotica.com%2Fs%2Fa-story%3Ft%3D1700000000000''] \<and>
   hd (requests (snd (fetchAllPagesOfStory two_page_world
         ''https://www.literotica.com/s/a-story?page=7'' start_state))) \<noteq>
     ''https://www.literotica.com/s/a-story''"
proof -
  let ?u = "''https://www.literotica.com/s/a-story''"
  let ?start = "''https://www.literotica.com/s/a-story?page=7''"
  note inst = fetchPage_request_through_proxy [of two_page_world ?u start_state ?start]
  have "requests (snd (fetchPage two_page_world ?u start_state)) =
      requests start_state @ [CORS_PROXY @ encodeURIComponent
        (?u @ (if str_includes ?u ''?'' then ''&t='' else ''?t='') @
          show_nat (clock two_page_world (length (requests start_state))))]"
    by (rule inst [THEN conjunct1])
  then have first: "requests (snd (fetchPage two_page_world ?u start_state)) =
     [''https://corsproxy.io/?https%3A%2F%2Fwww.literotica.com%2Fs%2Fa-story%3Ft%3D1700000000000'']"
    using proxied_example no_query_example by (simp add: start_state_def two_page_world_def)
  from inst [THEN conjunct2, THEN conjunct2] obtain m where m: "1 \<le> m"
    and eq: "requests (snd (fetchAllPagesOfStory two_page_world ?start start_state)) =
        requests start_state @ pageRequests two_page_world (split_first ?start) 1 (length (requests start_state)) m"
    and all: "\<forall>k<m. pageRequests two_page_world (split_first ?start) 1 (length (requests start_state)) m ! k \<noteq>
                 currentUrl (split_first ?start) (1 + k)"
    by blast
  have "0 < m" using m by simp
  then have "pageRequests two_page_world (split_first ?start) 1 (length (requests start_state)) m ! 0 \<noteq>
                 currentUrl (split_first ?start) (1 + 0)" by (rule all [rule_format])
  moreover have "pageRequests two_page_world (split_first ?start) 1 (length (requests start_state)) m \<noteq> []"
    using m by (metis length_pageRequests list.size(3) not_one_le_zero)
  ultimately have "hd (requests (snd (fetchAllPagesOfStory two_page_world ?start start_state))) \<noteq> ?u"
    unfolding eq split_first_example by (simp add: start_state_def hd_conv_nth currentUrl_def)
  with first show ?thesis by simp
qed

subsection \<open>The next-link detector\<close>

text \<open>
  C4: an anchor is accepted exactly when one of the six conditions holds (its trimmed,
  lower-cased text is \<open>next\<close>, contains \<open>next\<close> followed by a space and U+00BB, or is U+00BB;
  its lower-cased class contains \<open>pager-next\<close> or \<open>b-pager-next\<close>; its lower-cased title
  contains \<open>next page\<close>); the detector gives no anchor exactly when no anchor of the
  document is accepted, and otherwise the accepted anchor before which, in document order,
  no anchor is accepted, so that later accepted anchors play no part.
\<close>

theorem nextLink_first_match:
  "(isNextLink a \<longleftrightarrow>
      toLowerCase (trim (textContent a)) = ''next'' \<or>
      str_includes (toLowerCase (trim (textContent a))) (''next '' @ [CHR 0xBB]) \<or>
      toLowerCase (trim (textContent a)) = [CHR 0xBB] \<or>
      str_includes (toLowerCase (className a)) ''pager-next'' \<or>
      str_includes (toLowerCase (className a)) ''b-pager-next'' \<or>
      str_includes (toLowerCase (elem_title a)) ''next page'') \<and>
   (nextLink doc = None \<longleftrightarrow> (\<forall>x \<in> set (querySelectorAll doc ''a''). \<not> isNextLink x)) \<and>
   (nextLink doc = Some a \<longleftrightarrow>
      (\<exists>i<length (querySelectorAll doc ''a'').
          querySelectorAll doc ''a'' ! i = a \<and> isNextLink a \<and>
          (\<forall>j<i. \<not> isNextLink (querySelectorAll doc ''a'' ! j))))"
proof (intro conjI)
  show "isNextLink a \<longleftrightarrow>
      toLowerCase (trim (textContent a)) = ''next'' \<or>
      str_includes (toLowerCase (trim (textContent a))) (''next '' @ [CHR 0xBB]) \<or>
      toLowerCase (trim (textContent a)) = [CHR 0xBB] \<or>
      str_includes (toLowerCase (className a)) ''pager-next'' \<or>
      str_includes (toLowerCase (className a)) ''b-pager-next'' \<or>
      str_includes (toLowerCase (elem_title a)) ''next page''"
    by (simp only: isNextLink_def Let_def)
  show "nextLink doc = None \<longleftrightarrow> (\<forall>x \<in> set (querySelectorAll doc ''a''). \<not> isNextLink x)"
    by (simp only: nextLink_def find_None_iff) blast
  show "nextLink doc = Some a \<longleftrightarrow>
      (\<exists>i<length (querySelectorAll doc ''a'').
          querySelectorAll doc ''a'' ! i = a \<and> isNextLink a \<and>
          (\<forall>j<i. \<not> isNextLink (querySelectorAll doc ''a'' ! j)))"
    unfolding nextLink_def find_Some_iff by blast
qed

lemma char_eq_char_of_iff: "c = char_of (n::nat) \<longleftrightarrow> take_bit 8 n = of_char c"
  using char_of_eq_iff [of n c] by auto

lemma pager_link_accepted: "isNextLink pager_link"
  by (simp add: isNextLink_def pager_link_def toLowerCase_def lowerChar_def trim_def
      isWhiteSpace_def Let_def char_of_eq_iff char_eq_char_of_iff)

theorem nextLink_first_match_witness:
  "isNextLink pager_link \<and> isNextLink arrow_link \<and>
   querySelectorAll two_next_links ''a'' = [pager_link, arrow_link] \<and>
   nextLink two_next_links = Some pager_link \<and> nextLink empty_page = None"
proof -
  have anchors: "querySelectorAll two_next_links ''a'' = [pager_link, arrow_link]"
    by (simp add: querySelectorAll_def two_next_links_def)
  have arrow: "isNextLink arrow_link"
    using nextLink_first_match [of arrow_link two_next_links]
    by (simp add: arrow_link_def toLowerCase_def lowerChar_def trim_def isWhiteSpace_def Let_def)
  have "\<exists>i<length (querySelectorAll two_next_links ''a'').
          querySelectorAll two_next_links ''a'' ! i = pager_link \<and> isNextLink pager_link \<and>
          (\<forall>j<i. \<not> isNextLink (querySelectorAll two_next_links ''a'' ! j))"
    by (intro exI [of _ 0]) (simp add: anchors pager_link_accepted)
  then have "nextLink two_next_links = Some pager_link"
    using nextLink_first_match [of pager_link two_next_links] by (simp only:)
  moreover have "nextLink empty_page = None"
    using nextLink_first_match [of pager_link empty_page]
    by (simp add: querySelectorAll_def empty_page_def)
  ultimately show ?thesis using anchors arrow pager_link_accepted by simp
qed

subsection \<open>Extraction\<close>

text \<open>
  C6: \<^verbatim>\<open>extractStoryContent\<close> fails with the error of the missing story text exactly when
  none of its three selectors matches, and what it returns otherwise is the inner markup of
  a matched container, never a made-up empty result; \<^verbatim>\<open>extractMetadata\<close> has no failure at
  all (its result is a plain value) and gives \<open>Unknown Title\<close> when none of the title
  selectors matches and \<open>Unknown Author\<close> when none of the author selectors matches.
\<close>

theorem extract_content_fatal_metadata_tolerated:
  "((querySelector doc ''._article__content_14oe9_81 > div:first-child'' = None \<and>
     querySelector doc ''.b-story-body-x'' = None \<and> querySelector doc ''.aa_ht'' = None) \<longleftrightarrow>
    extractStoryContent doc =
      Inl (Error ''Could not locate story text. The page structure might be unknown or blocked.'')) \<and>
   (\<forall>c. extractStoryContent doc = Inr c \<longrightarrow>
      (\<exists>sel e. querySelector doc sel = Some e \<and> c = innerHTML e)) \<and>
   (querySelector doc ''h1._title_2d1pc_26'' = None \<and> querySelector doc ''h1.headline'' = None \<and>
    querySelector doc ''h1'' = None \<longrightarrow> meta_title (extractMetadata doc) = ''Unknown Title'') \<and>
   (querySelector doc ''._author__title_2mplv_48'' = None \<and> querySelector doc ''.y_eU'' = None \<and>
    querySelector doc ''.b-story-user-y'' = None \<longrightarrow> author (extractMetadata doc) = ''Unknown Author'')"
proof (intro conjI allI impI)
  show "(querySelector doc ''._article__content_14oe9_81 > div:first-child'' = None \<and>
     querySelector doc ''.b-story-body-x'' = None \<and> querySelector doc ''.aa_ht'' = None) \<longleftrightarrow>
    extractStoryContent doc =
      Inl (Error ''Could not locate story text. The page structure might be unknown or blocked.'')"
    by (simp add: extractStoryContent_def orElem_def split: option.splits)
next
  fix c assume "extractStoryContent doc = Inr c"
  then show "\<exists>sel e. querySelector doc sel = Some e \<and> c = innerHTML e"
    unfolding extractStoryContent_def orElem_def Let_def
    by (auto split: option.splits)
next
  assume "querySelector doc ''h1._title_2d1pc_26'' = None \<and> querySelector doc ''h1.headline'' = None \<and>
    querySelector doc ''h1'' = None"
  then show "meta_title (extractMetadata doc) = ''Unknown Title''"
    by (simp add: extractMetadata_def textOf_def orElse_def trim_def isWhiteSpace_def)
next
  assume "querySelector doc ''._author__title_2mplv_48'' = None \<and> querySelector doc ''.y_eU'' = None \<and>
    querySelector doc ''.b-story-user-y'' = None"
  then show "author (extractMetadata doc) = ''Unknown Author''"
    by (simp add: extractMetadata_def textOf_def orElse_def trim_def isWhiteSpace_def)
qed

theorem extract_content_fatal_metadata_tolerated_witness:
  "extractStoryContent empty_page =
      Inl (Error ''Could not locate story text. The page structure might be unknown or blocked.'') \<and>
   extractMetadata empty_page = \<lparr>meta_title = ''Unknown Title'', author = ''Unknown Author''\<rparr> \<and>
   (\<exists>sel e. querySelector page_with_next sel = Some e \<and> ''<p>one</p>'' = innerHTML e)"
  using extract_content_fatal_metadata_tolerated [of empty_page]
    extract_content_fatal_metadata_tolerated [of page_with_next] page_with_next_content
  by (simp add: querySelector_def empty_page_def)

subsection \<open>Decimal numbers\<close>

lemma digit_inj: "a < 10 \<Longrightarrow> b < 10 \<Longrightarrow> digit a = digit b \<Longrightarrow> a = b"
  by (simp add: digit_def char_of_eq_iff take_bit_eq_mod)

lemma show_nat_small: "n < 10 \<Longrightarrow> show_nat n = [digit n]"
  by (simp add: show_nat.simps)

lemma show_nat_big: "\<not> n < 10 \<Longrightarrow> show_nat n = show_nat (n div 10) @ [digit (n mod 10)]"
  by (subst show_nat.simps) simp

lemma show_nat_nonempty: "show_nat n \<noteq> []"
  by (cases "n < 10") (simp_all add: show_nat_small show_nat_big)

lemma show_nat_inj: "show_nat m = show_nat n \<Longrightarrow> m = n"
proof (induction n arbitrary: m rule: show_nat.induct)
  case (1 n)
  show ?case
  proof (cases "n < 10")
    case True
    then have n: "show_nat n = [digit n]" by (rule show_nat_small)
    have "m < 10"
    proof (rule ccontr)
      assume "\<not> m < 10"
      then have "show_nat m = show_nat (m div 10) @ [digit (m mod 10)]" by (rule show_nat_big)
      with "1.prems" n show_nat_nonempty [of "m div 10"] show False by simp
    qed
    with "1.prems" n True show ?thesis by (simp add: show_nat_small digit_inj)
  next
    case False
    then have n: "show_nat n = show_nat (n div 10) @ [digit (n mod 10)]" by (rule show_nat_big)
    have m10: "\<not> m < 10"
    proof
      assume "m < 10"
      then have "show_nat m = [digit m]" by (rule show_nat_small)
      with "1.prems" n show_nat_nonempty [of "n div 10"] show False by simp
    qed
    then have "show_nat m = show_nat (m div 10) @ [digit (m mod 10)]" by (rule show_nat_big)
    with "1.prems" n have eq: "show_nat (m div 10) = show_nat (n div 10)"
      and d: "digit (m mod 10) = digit (n mod 10)" by simp_all
    from "1.IH" [OF False eq] have "m div 10 = n div 10" .
    moreover from d have "m mod 10 = n mod 10" by (rule digit_inj [rotated 2]) simp_all
    ultimately show ?thesis by (metis div_mult_mod_eq)
  qed
qed

lemma show_nat_1: "show_nat (Suc 0) = ''1''"
  by (simp add: show_nat_small digit_def char_of_eq_iff)

lemma chapterFileName_inj: "chapterFileName i = chapterFileName j \<Longrightarrow> i = j"
  using show_nat_inj [of "i + 1" "j + 1"] by (simp add: chapterFileName_def chapterId_def)

subsection \<open>The entries of the archive\<close>

lemma zip_file_new:
  "nm \<notin> entry_name ` set z \<Longrightarrow>
   zip_file nm dat opt z = z @ [\<lparr>entry_name = nm, is_dir = False, entry_data = dat, compression = opt\<rparr>]"
  by (simp add: zip_file_def zip_put_def)

lemma zip_addChapter:
  "chapterFileName i \<notin> entry_name ` set (zip v) \<Longrightarrow> zip (addChapter chap i v) = zip v @ [chapterEntry i chap]"
  by (simp add: addChapter_def Let_def zip_file_new chapterEntry_def)

lemma forEach_zip:
  "\<forall>j\<ge>i. chapterFileName j \<notin> entry_name ` set (zip v) \<Longrightarrow>
   zip (forEach_chapters chs i v) = zip v @ map (\<lambda>k. chapterEntry (i + k) (chs ! k)) [0..<length chs]"
proof (induction chs arbitrary: i v)
  case Nil
  show ?case by simp
next
  case (Cons c cs)
  have step: "zip (addChapter c i v) = zip v @ [chapterEntry i c]"
    using Cons.prems by (simp add: zip_addChapter)
  have "\<forall>j\<ge>i + 1. chapterFileName j \<notin> entry_name ` set (zip (addChapter c i v))"
  proof (intro allI impI)
    fix j assume "i + 1 \<le> j"
    then have "chapterFileName j \<noteq> chapterFileName i" using chapterFileName_inj [of j i] by auto
    moreover have "chapterFileName j \<notin> entry_name ` set (zip v)" using Cons.prems \<open>i + 1 \<le> j\<close> by simp
    ultimately show "chapterFileName j \<notin> entry_name ` set (zip (addChapter c i v))"
      by (simp add: step chapterEntry_def)
  qed
  from Cons.IH [OF this]
  have "zip (forEach_chapters (c # cs) i v) =
      zip v @ chapterEntry i c # map (\<lambda>k. chapterEntry (i + 1 + k) (cs ! k)) [0..<length cs]"
    by (simp add: step)
  also have "chapterEntry i c # map (\<lambda>k. chapterEntry (i + 1 + k) (cs ! k)) [0..<length cs] =
      map (\<lambda>k. chapterEntry (i + k) ((c # cs) ! k)) [0..<length (c # cs)]"
    by (simp add: map_upt_Suc del: upt_Suc)
  finally show ?case .
qed

lemma chapterFileName_not_fixed:
  "chapterFileName j \<noteq> ''mimetype''" "chapterFileName j \<noteq> ''META-INF/''"
  "chapterFileName j \<noteq> ''META-INF/container.xml''" "chapterFileName j \<noteq> ''content.opf''"
  "chapterFileName j \<noteq> ''toc.ncx''"
  by (simp_all add: chapterFileName_def chapterId_def)

lemma fixed_zip:
  "zip_file (''META-INF/'' @ ''container.xml'') CONTAINER_XML None
     (zip_folder ''META-INF'' (zip_file ''mimetype'' ''application/epub+zip'' (Some ''STORE'') [])) =
   fixedEntries"
  by (simp add: zip_file_def zip_put_def zip_folder_def fixedEntries_def)

lemma forEach_zip_fixed:
  assumes "zip v = fixedEntries"
  shows "zip (forEach_chapters chs 0 v) = fixedEntries @ map (\<lambda>k. chapterEntry k (chs ! k)) [0..<length chs]"
proof -
  have "\<forall>j\<ge>0. chapterFileName j \<notin> entry_name ` set (zip v)"
    by (simp add: assms fixedEntries_def chapterFileName_not_fixed)
  from forEach_zip [OF this, of chs] show ?thesis by (simp add: assms)
qed

lemma names_chapters:
  "entry_name ` set (fixedEntries @ map (\<lambda>k. chapterEntry k (chs ! k)) [0..<n]) =
     {''mimetype'', ''META-INF/'', ''META-INF/container.xml''} \<union> chapterFileName ` {0..<n}"
  by (simp add: fixedEntries_def chapterEntry_def image_Un image_image)

lemma closing_zip:
  assumes "z = fixedEntries @ map (\<lambda>k. chapterEntry k (chs ! k)) [0..<n]"
  shows "zip_file ''toc.ncx'' ncx None (zip_file ''content.opf'' opf None z) =
     (fixedEntries @ map (\<lambda>k. chapterEntry k (chs ! k)) [0..<n]) @ [\<lparr>entry_name = ''content.opf'', is_dir = False, entry_data = opf, compression = None\<rparr>,
          \<lparr>entry_name = ''toc.ncx'', is_dir = False, entry_data = ncx, compression = None\<rparr>]"
proof -
  have names: "entry_name ` set z =
      {''mimetype'', ''META-INF/'', ''META-INF/container.xml''} \<union> chapterFileName ` {0..<n}"
    unfolding assms by (rule names_chapters)
  have opf: "''content.opf'' \<notin> entry_name ` set z"
    unfolding names by (auto simp: chapterFileName_def chapterId_def)
  have ncx: "''toc.ncx'' \<notin> entry_name ` set z"
    unfolding names by (auto simp: chapterFileName_def chapterId_def)
  have "zip_file ''content.opf'' opf None z =
      z @ [\<lparr>entry_name = ''content.opf'', is_dir = False, entry_data = opf, compression = None\<rparr>]"
    using opf by (rule zip_file_new)
  moreover have "''toc.ncx'' \<notin> entry_name ` set (z @
      [\<lparr>entry_name = ''content.opf'', is_dir = False, entry_data = opf, compression = None\<rparr>])"
    using ncx by simp
  ultimately show ?thesis unfolding assms [symmetric] by (simp add: zip_file_new)
qed

lemma fixed_not_chapterFileName:
  "''mimetype'' \<noteq> chapterFileName j" "''META-INF/'' \<noteq> chapterFileName j"
  "''META-INF/container.xml'' \<noteq> chapterFileName j" "''content.opf'' \<noteq> chapterFileName j"
  "''toc.ncx'' \<noteq> chapterFileName j"
  by (simp_all add: chapterFileName_def chapterId_def)

lemma generateEpub_files:
  "\<exists>opf ncx. files (generateEpub t a chs) =
     (fixedEntries @ map (\<lambda>k. chapterEntry k (chs ! k)) [0..<length chs]) @
     [\<lparr>entry_name = ''content.opf'', is_dir = False, entry_data = opf, compression = None\<rparr>,
      \<lparr>entry_name = ''toc.ncx'', is_dir = False, entry_data = ncx, compression = None\<rparr>]"
  unfolding generateEpub_def Let_def fixed_zip
  apply (simp only: epub.select_convs)
  apply (rule exI, rule exI)
  apply (rule closing_zip)
  apply (rule forEach_zip_fixed)
  apply (simp only: epub_vars.select_convs)
  done

subsection \<open>Replacing every occurrence of a pattern\<close>

lemma prefix_replaceAll:
  "r \<notin> set q \<Longrightarrow> prefix q (replaceAll pat [r] s) \<Longrightarrow> prefix q s"
proof (induction pat "[r]" s arbitrary: q rule: replaceAll.induct)
  case (1 pat)
  then show ?case by simp
next
  case (2 pat c cs)
  show ?case
  proof (cases q)
    case Nil
    then show ?thesis by simp
  next
    case (Cons x q')
    show ?thesis
    proof (cases "pat \<noteq> [] \<and> prefix pat (c # cs)")
      case True
      with "2.prems" Cons show ?thesis by simp
    next
      case False
      with "2.prems" Cons have "x = c" and "prefix q' (replaceAll pat [r] cs)" by auto
      moreover have "r \<notin> set q'" using "2.prems"(1) Cons by simp
      ultimately show ?thesis using "2.hyps"(2) [of q'] False Cons by simp
    qed
  qed
qed

lemma replaceAll_none_left:
  "pat \<noteq> [] \<Longrightarrow> r \<notin> set pat \<Longrightarrow> \<not> str_includes (replaceAll pat [r] s) pat"
proof (induction pat "[r]" s rule: replaceAll.induct)
  case (1 pat)
  then show ?case by simp
next
  case (2 pat c cs)
  show ?case
  proof (cases "prefix pat (c # cs)")
    case True
    have "\<not> prefix pat (r # replaceAll pat [r] (drop (length pat - 1) cs))"
      using "2.prems" by (cases pat) auto
    with "2.hyps"(1) "2.prems" True show ?thesis by simp
  next
    case False
    have "\<not> prefix pat (replaceAll pat [r] (c # cs))"
      using prefix_replaceAll [of r pat pat "c # cs"] False "2.prems"(2) by blast
    with "2.hyps"(2) "2.prems" False show ?thesis by simp
  qed
qed

lemma replaceAll_verbatim: "\<not> str_includes s pat \<Longrightarrow> replaceAll pat rep s = s"
  by (induction s) simp_all

lemma prefix_of_long: "prefix p (u @ v) \<Longrightarrow> length p \<le> length u \<Longrightarrow> prefix p u"
  by (metis prefix_length_prefix prefixI)

lemma replaceAll_first:
  "\<not> str_includes (a @ p) (p @ [l]) \<Longrightarrow>
   replaceAll (p @ [l]) rep (a @ (p @ [l]) @ b) = a @ rep @ replaceAll (p @ [l]) rep b"
proof (induction a)
  case Nil
  have "prefix (p @ [l]) ((p @ [l]) @ b)" by (rule prefixI) simp
  then have "replaceAll (p @ [l]) rep ((p @ [l]) @ b) =
      rep @ replaceAll (p @ [l]) rep (drop (length (p @ [l])) ((p @ [l]) @ b))"
    by (cases p) simp_all
  then show ?case by simp
next
  case (Cons x a)
  have "\<not> prefix (p @ [l]) (x # a @ (p @ [l]) @ b)"
  proof
    assume "prefix (p @ [l]) (x # a @ (p @ [l]) @ b)"
    then have "prefix (p @ [l]) ((x # a @ p) @ [l] @ b)" by simp
    then have "prefix (p @ [l]) (x # a @ p)" by (rule prefix_of_long) simp
    with Cons.prems show False by simp
  qed
  moreover have "\<not> str_includes (a @ p) (p @ [l])" using Cons.prems by simp
  ultimately show ?case using Cons.IH by simp
qed

subsection \<open>The archive of \<^verbatim>\<open>generateEpub\<close>\<close>

lemma generateEpub_names:
  "map entry_name (files (generateEpub t a chs)) =
     [''mimetype'', ''META-INF/'', ''META-INF/container.xml''] @ map chapterFileName [0..<length chs] @
     [''content.opf'', ''toc.ncx'']"
proof -
  obtain opf ncx where "files (generateEpub t a chs) =
     (fixedEntries @ map (\<lambda>k. chapterEntry k (chs ! k)) [0..<length chs]) @
     [\<lparr>entry_name = ''content.opf'', is_dir = False, entry_data = opf, compression = None\<rparr>,
      \<lparr>entry_name = ''toc.ncx'', is_dir = False, entry_data = ncx, compression = None\<rparr>]"
    using generateEpub_files by blast
  then show ?thesis by (simp add: fixedEntries_def chapterEntry_def comp_def)
qed

lemma generateEpub_fileEntries:
  "length (fileEntries (files (generateEpub t a chs))) = length chs + 4"
proof -
  obtain opf ncx where "files (generateEpub t a chs) =
     (fixedEntries @ map (\<lambda>k. chapterEntry k (chs ! k)) [0..<length chs]) @
     [\<lparr>entry_name = ''content.opf'', is_dir = False, entry_data = opf, compression = None\<rparr>,
      \<lparr>entry_name = ''toc.ncx'', is_dir = False, entry_data = ncx, compression = None\<rparr>]"
    using generateEpub_files by blast
  moreover have "filter (\<lambda>e. \<not> is_dir e) (map (\<lambda>k. chapterEntry k (chs ! k)) [0..<length chs]) =
      map (\<lambda>k. chapterEntry k (chs ! k)) [0..<length chs]"
    by (simp add: filter_map comp_def chapterEntry_def)
  ultimately show ?thesis by (simp add: fileEntries_def fixedEntries_def)
qed

lemma generateEpub_distinct: "distinct (map entry_name (files (generateEpub t a chs)))"
proof -
  have "inj_on chapterFileName (set [0..<length chs])"
    by (rule inj_onI) (rule chapterFileName_inj)
  then have "distinct (map chapterFileName [0..<length chs])"
    by (simp add: distinct_map)
  then show ?thesis
    unfolding generateEpub_names
    by (auto simp: chapterFileName_not_fixed fixed_not_chapterFileName)
qed

lemma generateEpub_first:
  "hd (files (generateEpub t a chs)) =
     \<lparr>entry_name = ''mimetype'', is_dir = False, entry_data = ''application/epub+zip'',
      compression = Some ''STORE''\<rparr>"
proof -
  obtain opf ncx where "files (generateEpub t a chs) =
     (fixedEntries @ map (\<lambda>k. chapterEntry k (chs ! k)) [0..<length chs]) @
     [\<lparr>entry_name = ''content.opf'', is_dir = False, entry_data = opf, compression = None\<rparr>,
      \<lparr>entry_name = ''toc.ncx'', is_dir = False, entry_data = ncx, compression = None\<rparr>]"
    using generateEpub_files by blast
  then show ?thesis by (simp add: fixedEntries_def)
qed

lemma generateEpub_chapter:
  assumes "i < length chs"
  shows "files (generateEpub t a chs) ! (3 + i) = chapterEntry i (chs ! i)"
proof -
  obtain opf ncx where "files (generateEpub t a chs) =
     (fixedEntries @ map (\<lambda>k. chapterEntry k (chs ! k)) [0..<length chs]) @
     [\<lparr>entry_name = ''content.opf'', is_dir = False, entry_data = opf, compression = None\<rparr>,
      \<lparr>entry_name = ''toc.ncx'', is_dir = False, entry_data = ncx, compression = None\<rparr>]"
    using generateEpub_files by blast
  moreover have "length fixedEntries = 3" by (simp add: fixedEntries_def)
  ultimately show ?thesis using assms by (simp add: nth_append)
qed

text \<open>
  C3, as the claim states it: for the one-chapter book of the specification neither the
  number of all entries nor the number of file entries is \<open>N + 3\<close>.
\<close>

theorem generateEpub_entry_count_counterexample:
  "map entry_name (files (generateEpub ''T'' ''A'' [\<lparr>title = ''C1'', content = ''<p>x</p>''\<rparr>])) =
     [''mimetype'', ''META-INF/'', ''META-INF/container.xml'', ''chapter1.html'', ''content.opf'', ''toc.ncx''] \<and>
   \<not> length (files (generateEpub ''T'' ''A'' [\<lparr>title = ''C1'', content = ''<p>x</p>''\<rparr>])) = 1 + 3 \<and>
   \<not> length (fileEntries (files (generateEpub ''T'' ''A'' [\<lparr>title = ''C1'', content = ''<p>x</p>''\<rparr>]))) = 1 + 3"
proof -
  let ?chs = "[\<lparr>title = ''C1'', content = ''<p>x</p>''\<rparr>]"
  have one: "show_nat (Suc 0) = ''1''" by (simp add: show_nat_small digit_def char_of_eq_iff)
  have names: "map entry_name (files (generateEpub ''T'' ''A'' ?chs)) =
     [''mimetype'', ''META-INF/'', ''META-INF/container.xml'', ''chapter1.html'', ''content.opf'', ''toc.ncx'']"
    by (simp add: generateEpub_names chapterFileName_def chapterId_def one)
  have "length (map entry_name (files (generateEpub ''T'' ''A'' ?chs))) = 6"
    unfolding names by simp
  then have "length (files (generateEpub ''T'' ''A'' ?chs)) = 6" by simp
  moreover have "length (fileEntries (files (generateEpub ''T'' ''A'' ?chs))) = 5"
    by (simp add: generateEpub_fileEntries)
  ultimately show ?thesis using names by simp
qed

text \<open>
  C3, amended: for every title, author and list of \<open>N\<close> chapters the archive has \<open>N + 4\<close> file
  entries (\<open>mimetype\<close>, \<open>META-INF/container.xml\<close>, one document for each chapter,
  \<open>content.opf\<close> and \<open>toc.ncx\<close>) and the directory entry \<open>META-INF/\<close>, \<open>N + 5\<close> entries in all,
  with names that differ from each other; its first entry is \<open>mimetype\<close>, stored without
  compression, with the content \<open>application/epub+zip\<close>.
\<close>

theorem generateEpub_entries:
  "length (fileEntries (files (generateEpub t a chs))) = length chs + 4 \<and>
   length (files (generateEpub t a chs)) = length chs + 5 \<and>
   map entry_name (files (generateEpub t a chs)) =
     [''mimetype'', ''META-INF/'', ''META-INF/container.xml''] @ map chapterFileName [0..<length chs] @
     [''content.opf'', ''toc.ncx''] \<and>
   distinct (map entry_name (files (generateEpub t a chs))) \<and>
   hd (files (generateEpub t a chs)) =
     \<lparr>entry_name = ''mimetype'', is_dir = False, entry_data = ''application/epub+zip'',
      compression = Some ''STORE''\<rparr>"
proof -
  have "length (map entry_name (files (generateEpub t a chs))) = length chs + 5"
    unfolding generateEpub_names by simp
  then have "length (files (generateEpub t a chs)) = length chs + 5" by simp
  then show ?thesis
    using generateEpub_fileEntries generateEpub_names generateEpub_distinct generateEpub_first
    by blast
qed

text \<open>
  C9: the document of the chapter at index \<open>i\<close> is the entry \<open>chapter(i+1).html\<close>, the only
  entry of that name; its data are the fixed frame around the title, the heading with the
  title and, after the rule, the content of the chapter in which every \<open>&nbsp;\<close> has become
  a space. Of that replacement: nothing of the entity is left in its result, a content free
  of the entity is kept as it is, and up to and including the first entity the content is
  kept but for the entity, which becomes a space, the rest being treated the same way.
\<close>

theorem generateEpub_chapter_document:
  assumes "i < length chs"
  shows "files (generateEpub t a chs) ! (3 + i) =
           \<lparr>entry_name = ''chapter'' @ show_nat (i + 1) @ ''.html'', is_dir = False,
            entry_data = xhtmlContent (chs ! i) (replaceAll ''&nbsp;'' '' '' (content (chs ! i))),
            compression = None\<rparr> \<and>
         (\<forall>e \<in> set (files (generateEpub t a chs)).
            entry_name e = ''chapter'' @ show_nat (i + 1) @ ''.html'' \<longrightarrow>
            e = files (generateEpub t a chs) ! (3 + i)) \<and>
         (\<forall>c. xhtmlContent (chs ! i) c =
            xhtmlHead (title (chs ! i)) @ ''<h2>'' @ title (chs ! i) @ ''</h2>'' @ NL @
            sp 16 @ ''<hr/>'' @ NL @ sp 16 @ c @ xhtmlTail) \<and>
         \<not> str_includes (replaceAll ''&nbsp;'' '' '' (content (chs ! i))) ''&nbsp;'' \<and>
         (\<not> str_includes (content (chs ! i)) ''&nbsp;'' \<longrightarrow>
            replaceAll ''&nbsp;'' '' '' (content (chs ! i)) = content (chs ! i)) \<and>
         (\<forall>x y. content (chs ! i) = x @ ''&nbsp;'' @ y \<and> \<not> str_includes (x @ ''&nbsp'') ''&nbsp;'' \<longrightarrow>
            replaceAll ''&nbsp;'' '' '' (content (chs ! i)) = x @ '' '' @ replaceAll ''&nbsp;'' '' '' y)"
proof (intro conjI)
  let ?fs = "files (generateEpub t a chs)"
  show at: "?fs ! (3 + i) =
           \<lparr>entry_name = ''chapter'' @ show_nat (i + 1) @ ''.html'', is_dir = False,
            entry_data = xhtmlContent (chs ! i) (replaceAll ''&nbsp;'' '' '' (content (chs ! i))),
            compression = None\<rparr>"
    using generateEpub_chapter [OF assms] by (simp add: chapterEntry_def chapterFileName_def chapterId_def)
  have len: "length ?fs = length chs + 5"
    using arg_cong [OF generateEpub_names [of t a chs], of length] by simp
  show "\<forall>e \<in> set ?fs. entry_name e = ''chapter'' @ show_nat (i + 1) @ ''.html'' \<longrightarrow> e = ?fs ! (3 + i)"
  proof (intro ballI impI)
    fix e assume e: "e \<in> set ?fs" and nm: "entry_name e = ''chapter'' @ show_nat (i + 1) @ ''.html''"
    from e obtain j where j: "j < length ?fs" "?fs ! j = e" by (auto simp: in_set_conv_nth)
    have i3: "3 + i < length ?fs" using assms len by simp
    have "map entry_name ?fs ! j = map entry_name ?fs ! (3 + i)"
      using j i3 nm at by simp
    with generateEpub_distinct [of t a chs] j(1) i3 have "j = 3 + i"
      by (simp add: nth_eq_iff_index_eq del: nth_map)
    with j show "e = ?fs ! (3 + i)" by simp
  qed
  show "\<forall>c. xhtmlContent (chs ! i) c =
            xhtmlHead (title (chs ! i)) @ ''<h2>'' @ title (chs ! i) @ ''</h2>'' @ NL @
            sp 16 @ ''<hr/>'' @ NL @ sp 16 @ c @ xhtmlTail"
    unfolding xhtmlContent_def xhtmlHead_def xhtmlTail_def
    by (simp only: append_assoc) (rule allI, rule refl)
  show "\<not> str_includes (replaceAll ''&nbsp;'' '' '' (content (chs ! i))) ''&nbsp;''"
    by (rule replaceAll_none_left) simp_all
  show "\<not> str_includes (content (chs ! i)) ''&nbsp;'' \<longrightarrow>
            replaceAll ''&nbsp;'' '' '' (content (chs ! i)) = content (chs ! i)"
    by (simp add: replaceAll_verbatim)
  show "\<forall>x y. content (chs ! i) = x @ ''&nbsp;'' @ y \<and> \<not> str_includes (x @ ''&nbsp'') ''&nbsp;'' \<longrightarrow>
            replaceAll ''&nbsp;'' '' '' (content (chs ! i)) = x @ '' '' @ replaceAll ''&nbsp;'' '' '' y"
    using replaceAll_first [of _ "''&nbsp''" "CHR '';''" "'' ''"] by simp
qed

theorem generateEpub_chapter_document_witness:
  "files (generateEpub ''T'' ''A'' [example_chapter]) ! 3 =
     \<lparr>entry_name = ''chapter1.html'', is_dir = False,
      entry_data = xhtmlContent example_chapter ''<p>a b</p>'', compression = None\<rparr> \<and>
   replaceAll ''&nbsp;'' '' '' ''<p>a&nbsp;b</p>'' = ''<p>a'' @ '' '' @ replaceAll ''&nbsp;'' '' '' ''b</p>'' \<and>
   files (generateEpub ''T'' ''A'' [\<lparr>title = ''C1'', content = ''<p>x</p>''\<rparr>]) ! 3 =
     \<lparr>entry_name = ''chapter1.html'', is_dir = False,
      entry_data = xhtmlHead ''C1'' @ ''<h2>C1</h2>'' @ NL @ sp 16 @ ''<hr/>'' @ NL @ sp 16 @
                   ''<p>x</p>'' @ xhtmlTail,
      compression = None\<rparr>"
proof -
  note a = generateEpub_chapter_document [of 0 "[example_chapter]" "''T''" "''A''"]
  note b = generateEpub_chapter_document [of 0 "[\<lparr>title = ''C1'', content = ''<p>x</p>''\<rparr>]" "''T''" "''A''"]
  have "files (generateEpub ''T'' ''A'' [example_chapter]) ! 3 =
     \<lparr>entry_name = ''chapter1.html'', is_dir = False,
      entry_data = xhtmlContent example_chapter ''<p>a b</p>'', compression = None\<rparr>"
    using a by (simp add: example_chapter_def show_nat_1)
  moreover have "replaceAll ''&nbsp;'' '' '' ''<p>a&nbsp;b</p>'' =
      ''<p>a'' @ '' '' @ replaceAll ''&nbsp;'' '' '' ''b</p>''"
  proof -
    have "\<forall>x y. content ([example_chapter] ! 0) = x @ ''&nbsp;'' @ y \<and>
        \<not> str_includes (x @ ''&nbsp'') ''&nbsp;'' \<longrightarrow>
        replaceAll ''&nbsp;'' '' '' (content ([example_chapter] ! 0)) =
        x @ '' '' @ replaceAll ''&nbsp;'' '' '' y"
      using a by simp
    from this [rule_format, of "''<p>a''" "''b</p>''"] show ?thesis
      by (simp add: example_chapter_def)
  qed
  moreover have "files (generateEpub ''T'' ''A'' [\<lparr>title = ''C1'', content = ''<p>x</p>''\<rparr>]) ! 3 =
     \<lparr>entry_name = ''chapter1.html'', is_dir = False,
      entry_data = xhtmlHead ''C1'' @ ''<h2>C1</h2>'' @ NL @ sp 16 @ ''<hr/>'' @ NL @ sp 16 @
                   ''<p>x</p>'' @ xhtmlTail,
      compression = None\<rparr>"
    using b by (simp add: show_nat_1)
  ultimately show ?thesis by (simp only: simp_thms)
qed

subsection \<open>Errors and challenge pages in a run\<close>

lemma challenged_append: "k < length rs \<Longrightarrow> challenged w (rs @ new) k = challenged w rs k"
  by (simp add: challenged_def nth_append)

lemma fetchPage_errors: "fetchPage w u s = (Inl e, s') \<Longrightarrow> \<exists>m. e = Error (''Network error: '' @ m)"
  by (auto simp: fetchPage_def split: prod.splits sum.splits)

lemma fetchPage_challenged:
  assumes "net w (length (requests s)) (targetUrl u (clock w (length (requests s)))) = Response True st doc"
    and "cloudflare doc"
  shows "fst (fetchPage w u s) = Inl BLOCKED"
  using assms by (simp add: fetchPage_def fetchPage_try_def Let_def BLOCKED_def)

lemma fetchPage_unchallenged:
  assumes "unchallenged_from w n s" and "fetchPage w u s = (r, s')"
  shows "unchallenged_from w n s' \<or> r = Inl BLOCKED"
proof (cases "r = Inl BLOCKED")
  case True
  then show ?thesis by simp
next
  case False
  let ?t = "targetUrl u (clock w (length (requests s)))"
  have rq: "requests s' = requests s @ [?t]"
    using fetchPage_requests [of w u s] assms(2) by simp
  have new: "\<not> challenged w (requests s') (length (requests s))"
  proof
    assume "challenged w (requests s') (length (requests s))"
    then obtain st doc where "net w (length (requests s)) ?t = Response True st doc" "cloudflare doc"
      by (auto simp: challenged_def rq split: http_result.splits)
    then have "fst (fetchPage w u s) = Inl BLOCKED" by (rule fetchPage_challenged)
    with assms(2) False show False by simp
  qed
  have "unchallenged_from w n s'"
    unfolding unchallenged_from_def
  proof (intro allI impI)
    fix k assume k: "n \<le> k \<and> k < length (requests s')"
    show "\<not> challenged w (requests s') k"
    proof (cases "k < length (requests s)")
      case True
      with assms(1) k have "\<not> challenged w (requests s) k" by (simp add: unchallenged_from_def)
      with True show ?thesis by (simp add: rq challenged_append)
    next
      case False
      with k have "k = length (requests s)" by (simp add: rq)
      with new show ?thesis by simp
    qed
  qed
  then show ?thesis by simp
qed

lemma unchallenged_delays [simp]:
  "unchallenged_from w n (s\<lparr>delays := ds\<rparr>) = unchallenged_from w n s"
  by (simp add: unchallenged_from_def)

lemma loop_unchallenged:
  "unchallenged_from w n s \<longrightarrow>
     unchallenged_from w n (snd (fetchAllPagesOfStory_loop w b p f True s)) \<or>
     fst (fetchAllPagesOfStory_loop w b p f True s) = Inl BLOCKED"
proof (induction rule: loop_induct [where P = "\<lambda>p f s res. unchallenged_from w n s \<longrightarrow>
     unchallenged_from w n (snd res) \<or> fst res = Inl BLOCKED"])
  case (over p f s)
  show ?case by simp
next
  case (fetch_fail p f s e s1)
  then show ?case using fetchPage_unchallenged [of w n s "currentUrl b p" "Inl e" s1] by auto
next
  case (content_fail p f s doc s1 e)
  then show ?case using fetchPage_unchallenged [of w n s "currentUrl b p" "Inr doc" s1] by auto
next
  case (last p f s doc s1 c)
  then show ?case using fetchPage_unchallenged [of w n s "currentUrl b p" "Inr doc" s1] by auto
next
  case (more p f s doc s1 c a res)
  then show ?case using fetchPage_unchallenged [of w n s "currentUrl b p" "Inr doc" s1] by auto
qed

lemma fetchAllPagesOfStory_unchallenged:
  assumes "unchallenged_from w n s" and "fetchAllPagesOfStory w u s = (r, s')"
  shows "unchallenged_from w n s' \<or> r = Inl BLOCKED"
  using loop_unchallenged [of w n s "split_first u" 1 "[]"] assms
  by (simp add: fetchAllPagesOfStory_def)

lemma extractStoryContent_errors: "extractStoryContent doc = Inl e \<Longrightarrow> e = CONTENT_NOT_FOUND"
  by (auto simp: extractStoryContent_def CONTENT_NOT_FOUND_def Let_def split: option.splits)

lemma loop_errors:
  "\<forall>e. fst (fetchAllPagesOfStory_loop w b p f True s) = Inl e \<longrightarrow>
     e = CONTENT_NOT_FOUND \<or> (\<exists>m. e = Error (''Network error: '' @ m))"
proof (induction rule: loop_induct [where P = "\<lambda>p f s res. \<forall>e. fst res = Inl e \<longrightarrow>
     e = CONTENT_NOT_FOUND \<or> (\<exists>m. e = Error (''Network error: '' @ m))"])
  case (over p f s)
  show ?case by simp
next
  case (fetch_fail p f s e s1)
  then show ?case using fetchPage_errors [of w "currentUrl b p" s e s1] by simp
next
  case (content_fail p f s doc s1 e)
  then show ?case using extractStoryContent_errors [of doc e] by simp
next
  case (last p f s doc s1 c)
  show ?case by simp
next
  case (more p f s doc s1 c a res)
  then show ?case by simp
qed

lemma fetchAllPagesOfStory_errors:
  "fetchAllPagesOfStory w u s = (Inl e, s') \<Longrightarrow>
     e = CONTENT_NOT_FOUND \<or> (\<exists>m. e = Error (''Network error: '' @ m))"
  using loop_errors [of w "split_first u" 1 "[]" s] by (simp add: fetchAllPagesOfStory_def)

lemma series_loop_unchallenged:
  "unchallenged_from w n s \<Longrightarrow> processSeries_loop w links chs s = (r, s') \<Longrightarrow>
   unchallenged_from w n s' \<or> r = Inl BLOCKED"
proof (induction links arbitrary: chs s)
  case Nil
  then show ?case by simp
next
  case (Cons link rest)
  show ?case
  proof (cases "chapterUrl link")
    case (Inl e)
    with Cons.prems show ?thesis by simp
  next
    case (Inr url)
    obtain r1 s1 where fa: "fetchAllPagesOfStory w url s = (r1, s1)"
      by (cases "fetchAllPagesOfStory w url s")
    from fetchAllPagesOfStory_unchallenged [OF Cons.prems(1) fa]
    have inv: "unchallenged_from w n s1 \<or> r1 = Inl BLOCKED" .
    show ?thesis
    proof (cases r1)
      case (Inl e)
      with Cons.prems(2) Inr fa inv show ?thesis by auto
    next
      case c: (Inr c)
      with inv have "unchallenged_from w n (s1\<lparr>delays := delays s1 @ [500]\<rparr>)" by simp
      moreover have "processSeries_loop w rest
          (chs @ [\<lparr>title = trim (textContent link), content = c\<rparr>])
          (s1\<lparr>delays := delays s1 @ [500]\<rparr>) = (r, s')"
        using Cons.prems(2) Inr fa c by simp
      ultimately show ?thesis by (rule Cons.IH)
    qed
  qed
qed

lemma processSingleStory_unchallenged:
  assumes "unchallenged_from w n s" and "processSingleStory w url s = (r, s')"
  shows "unchallenged_from w n s' \<or> r = Inl BLOCKED"
proof -
  obtain r1 s1 where fp: "fetchPage w url s = (r1, s1)" by (cases "fetchPage w url s")
  from fetchPage_unchallenged [OF assms(1) fp] have inv1: "unchallenged_from w n s1 \<or> r1 = Inl BLOCKED" .
  show ?thesis
  proof (cases r1)
    case (Inl e)
    with assms(2) fp inv1 show ?thesis by (auto simp: processSingleStory_def)
  next
    case (Inr doc)
    with inv1 have u1: "unchallenged_from w n s1" by simp
    obtain r2 s2 where fa: "fetchAllPagesOfStory w url s1 = (r2, s2)"
      by (cases "fetchAllPagesOfStory w url s1")
    from fetchAllPagesOfStory_unchallenged [OF u1 fa]
    have "unchallenged_from w n s2 \<or> r2 = Inl BLOCKED" .
    with assms(2) fp Inr fa show ?thesis
      by (cases r2) (auto simp: processSingleStory_def Let_def)
  qed
qed

lemma processSeries_unchallenged:
  assumes "unchallenged_from w n s" and "processSeries w url s = (r, s')"
  shows "unchallenged_from w n s' \<or> r = Inl BLOCKED"
proof -
  obtain r1 s1 where fp: "fetchPage w url s = (r1, s1)" by (cases "fetchPage w url s")
  from fetchPage_unchallenged [OF assms(1) fp] have inv1: "unchallenged_from w n s1 \<or> r1 = Inl BLOCKED" .
  show ?thesis
  proof (cases r1)
    case (Inl e)
    with assms(2) fp inv1 show ?thesis by (auto simp: processSeries_def)
  next
    case (Inr doc)
    with inv1 have u1: "unchallenged_from w n s1" by simp
    let ?links = "querySelectorAll doc ''.series__works .br_rj''"
    obtain r2 s2 where lp: "processSeries_loop w ?links [] s1 = (r2, s2)"
      by (cases "processSeries_loop w ?links [] s1")
    from series_loop_unchallenged [OF u1 lp]
    have "unchallenged_from w n s2 \<or> r2 = Inl BLOCKED" .
    with assms(2) fp Inr lp u1 show ?thesis
      by (cases r2) (auto simp: processSeries_def Let_def split: if_splits)
  qed
qed

lemma run_unchallenged:
  assumes "unchallenged_from w n s" and "run w url s = (r, s')"
  shows "unchallenged_from w n s' \<or> r = Inl BLOCKED"
  using assms processSeries_unchallenged [of w n s url r s'] processSingleStory_unchallenged [of w n s url r s']
  by (simp add: run_def split: if_splits)

text \<open>
  C5, as the claim states it: the failure on a challenge page is the very error of a transport
  failure (here one whose message is the text of the challenge error), made by the same
  \<^verbatim>\<open>catch\<close> block with the same prefix; it is not an error apart from the network errors.
\<close>

theorem blocked_error_counterexample:
  "str_includes (doc_title challenge_page) ''Just a moment'' \<and>
   fst (fetchPage challenge_world ''https://www.literotica.com/s/a-story'' start_state) =
     Inl (Error ''Network error: Blocked by Cloudflare protection. Try a different network.'') \<and>
   fst (fetchPage rejecting_world ''https://www.literotica.com/s/a-story'' start_state) =
     fst (fetchPage challenge_world ''https://www.literotica.com/s/a-story'' start_state)"
  by (simp add: fetchPage_def fetchPage_try_def Let_def challenge_world_def rejecting_world_def
      challenge_page_def cloudflare_def start_state_def)

text \<open>
  C5, amended: when the response to \<^verbatim>\<open>fetchPage\<close> is \<open>ok\<close> and the title of its document
  contains \<open>Just a moment\<close>, \<^verbatim>\<open>fetchPage\<close> fails with the error whose message is
  \<open>Network error: Blocked by Cloudflare protection. Try a different network.\<close>; every failure
  of \<^verbatim>\<open>fetchPage\<close> is an error of this one kind, its message starting with \<open>Network error: \<close>;
  and a run in which any request is answered by such a page ends with that error, so
  without an archive.
\<close>

theorem blocked_page_aborts_run:
  "(\<forall>st doc. net w (length (requests s)) (targetUrl u (clock w (length (requests s)))) = Response True st doc \<and>
       str_includes (doc_title doc) ''Just a moment'' \<longrightarrow>
     fst (fetchPage w u s) =
       Inl (Error ''Network error: Blocked by Cloudflare protection. Try a different network.'')) \<and>
   (\<forall>e. fst (fetchPage w u s) = Inl e \<longrightarrow> (\<exists>m. e = Error (''Network error: '' @ m))) \<and>
   (\<forall>k st doc. length (requests s) \<le> k \<and> k < length (requests (snd (run w url s))) \<and>
       net w k (requests (snd (run w url s)) ! k) = Response True st doc \<and>
       str_includes (doc_title doc) ''Just a moment'' \<longrightarrow>
     fst (run w url s) =
       Inl (Error ''Network error: Blocked by Cloudflare protection. Try a different network.''))"
proof (intro conjI allI impI)
  fix st doc
  assume "net w (length (requests s)) (targetUrl u (clock w (length (requests s)))) = Response True st doc \<and>
       str_includes (doc_title doc) ''Just a moment''"
  then have "net w (length (requests s)) (targetUrl u (clock w (length (requests s)))) = Response True st doc"
    and "cloudflare doc" by (simp_all add: cloudflare_def)
  then have "fst (fetchPage w u s) = Inl BLOCKED" by (rule fetchPage_challenged)
  then show "fst (fetchPage w u s) =
       Inl (Error ''Network error: Blocked by Cloudflare protection. Try a different network.'')"
    by (simp add: BLOCKED_def)
next
  fix e assume "fst (fetchPage w u s) = Inl e"
  then show "\<exists>m. e = Error (''Network error: '' @ m)"
    using fetchPage_errors [of w u s e "snd (fetchPage w u s)"] by (cases "fetchPage w u s") simp
next
  fix k st doc
  let ?s' = "snd (run w url s)"
  assume h: "length (requests s) \<le> k \<and> k < length (requests ?s') \<and>
       net w k (requests ?s' ! k) = Response True st doc \<and>
       str_includes (doc_title doc) ''Just a moment''"
  then have "challenged w (requests ?s') k" by (simp add: challenged_def cloudflare_def)
  with h have "\<not> unchallenged_from w (length (requests s)) ?s'"
    by (auto simp: unchallenged_from_def)
  moreover have "unchallenged_from w (length (requests s)) s" by (auto simp: unchallenged_from_def)
  ultimately have "fst (run w url s) = Inl BLOCKED"
    using run_unchallenged [of w "length (requests s)" s url "fst (run w url s)" ?s'] by simp
  then show "fst (run w url s) =
       Inl (Error ''Network error: Blocked by Cloudflare protection. Try a different network.'')"
    by (simp add: BLOCKED_def)
qed

theorem blocked_page_aborts_run_witness:
  "fst (fetchPage challenge_world ''https://www.literotica.com/s/a-story'' start_state) =
     Inl (Error ''Network error: Blocked by Cloudflare protection. Try a different network.'') \<and>
   fst (run challenge_world ''https://www.literotica.com/s/a-story'' start_state) =
     Inl (Error ''Network error: Blocked by Cloudflare protection. Try a different network.'')"
proof -
  let ?u = "''https://www.literotica.com/s/a-story''"
  note inst = blocked_page_aborts_run [of challenge_world start_state ?u ?u]
  have title: "str_includes (doc_title challenge_page) ''Just a moment''"
    by (simp add: challenge_page_def)
  have served: "\<And>k url. net challenge_world k url = Response True 200 challenge_page"
    by (simp add: challenge_world_def)
  have first: "fst (fetchPage challenge_world ?u start_state) =
     Inl (Error ''Network error: Blocked by Cloudflare protection. Try a different network.'')"
    using inst [THEN conjunct1, rule_format, of 200 challenge_page] served title by simp
  have "snd (run challenge_world ?u start_state) = snd (fetchPage challenge_world ?u start_state)"
    using first by (cases "fetchPage challenge_world ?u start_state")
      (simp add: run_def processSingleStory_def)
  then have len: "0 < length (requests (snd (run challenge_world ?u start_state)))"
    by (simp add: fetchPage_requests)
  have "fst (run challenge_world ?u start_state) =
     Inl (Error ''Network error: Blocked by Cloudflare protection. Try a different network.'')"
    using inst [THEN conjunct2, THEN conjunct2, rule_format, of 0 200 challenge_page] served title len
    by (simp add: start_state_def)
  with first show ?thesis by simp
qed

subsection \<open>The chapters of a series\<close>

lemma series_loop_errors:
  "processSeries_loop w links chs s = (Inl e, s') \<Longrightarrow>
     e = TypeError \<or> e = CONTENT_NOT_FOUND \<or> (\<exists>m. e = Error (''Network error: '' @ m))"
proof (induction links arbitrary: chs s)
  case Nil
  then show ?case by simp
next
  case (Cons link rest)
  show ?case
  proof (cases "chapterUrl link")
    case (Inl e')
    with Cons.prems show ?thesis by (auto simp: chapterUrl_def split: option.splits)
  next
    case (Inr url)
    obtain r1 s1 where fa: "fetchAllPagesOfStory w url s = (r1, s1)"
      by (cases "fetchAllPagesOfStory w url s")
    show ?thesis
    proof (cases r1)
      case (Inl e')
      with Cons.prems Inr fa have "e = e'" by simp
      with fetchAllPagesOfStory_errors [of w url s e' s1] fa Inl show ?thesis by simp
    next
      case c: (Inr c)
      with Cons.prems Inr fa show ?thesis using Cons.IH by simp
    qed
  qed
qed

lemma series_loop_result:
  "processSeries_loop w links chs s = (Inr out, s') \<Longrightarrow>
   \<exists>new. out = chs @ new \<and> length new = length links \<and>
     (\<forall>i<length links. title (new ! i) = trim (textContent (links ! i)) \<and>
        (\<exists>u si. chapterUrl (links ! i) = Inr u \<and>
                fst (fetchAllPagesOfStory w u si) = Inr (content (new ! i))))"
proof (induction links arbitrary: chs s)
  case Nil
  then show ?case by simp
next
  case (Cons link rest)
  from Cons.prems obtain url where url: "chapterUrl link = Inr url"
    by (cases "chapterUrl link") simp_all
  obtain r1 s1 where fa: "fetchAllPagesOfStory w url s = (r1, s1)"
    by (cases "fetchAllPagesOfStory w url s")
  from Cons.prems url fa obtain c where c: "r1 = Inr c" by (cases r1) simp_all
  let ?ch = "\<lparr>title = trim (textContent link), content = c\<rparr>"
  have "processSeries_loop w rest (chs @ [?ch]) (s1\<lparr>delays := delays s1 @ [500]\<rparr>) = (Inr out, s')"
    using Cons.prems url fa c by simp
  from Cons.IH [OF this] obtain new where new: "out = (chs @ [?ch]) @ new" "length new = length rest"
    and each: "\<forall>i<length rest. title (new ! i) = trim (textContent (rest ! i)) \<and>
        (\<exists>u si. chapterUrl (rest ! i) = Inr u \<and>
                fst (fetchAllPagesOfStory w u si) = Inr (content (new ! i)))"
    by blast
  have "\<forall>i<length (link # rest). title ((?ch # new) ! i) = trim (textContent ((link # rest) ! i)) \<and>
        (\<exists>u si. chapterUrl ((link # rest) ! i) = Inr u \<and>
                fst (fetchAllPagesOfStory w u si) = Inr (content ((?ch # new) ! i)))"
  proof (intro allI impI)
    fix i assume i: "i < length (link # rest)"
    show "title ((?ch # new) ! i) = trim (textContent ((link # rest) ! i)) \<and>
        (\<exists>u si. chapterUrl ((link # rest) ! i) = Inr u \<and>
                fst (fetchAllPagesOfStory w u si) = Inr (content ((?ch # new) ! i)))"
    proof (cases i)
      case 0
      have "fst (fetchAllPagesOfStory w url s) = Inr c" using fa c by simp
      with url 0 show ?thesis by auto
    next
      case (Suc j)
      with i each show ?thesis by simp
    qed
  qed
  with new show ?case by (intro exI [of _ "?ch # new"]) simp
qed

lemma chapterUrl_absolute:
  assumes "href link = Some h"
  shows "\<exists>u. chapterUrl link = Inr u \<and> startsWith u ''http'' \<and>
           (startsWith h ''http'' \<longrightarrow> u = h) \<and>
           (\<not> startsWith h ''http'' \<longrightarrow> u = ''https://www.literotica.com'' @ h) \<and>
           (startsWith h ''/'' \<longrightarrow> u = ''https://www.literotica.com'' @ h)"
proof (cases "startsWith h ''http''")
  case True
  with assms show ?thesis by (cases h) (auto simp: chapterUrl_def startsWith_def)
next
  case False
  with assms show ?thesis by (simp add: chapterUrl_def startsWith_def SITE_ORIGIN_def)
qed

lemma series_loop_chain:
  assumes "length ss = Suc (length links)" and "length cs = length links" and "ss ! 0 = s"
    and "\<forall>i<length links. \<exists>u s'. chapterUrl (links ! i) = Inr u \<and>
           fetchAllPagesOfStory w u (ss ! i) = (Inr (cs ! i), s') \<and>
           ss ! Suc i = s'\<lparr>delays := delays s' @ [500]\<rparr>"
  shows "processSeries_loop w links chs s =
     (Inr (chs @ map (\<lambda>i. \<lparr>title = trim (textContent (links ! i)), content = cs ! i\<rparr>) [0..<length links]),
      ss ! length links)"
  using assms
proof (induction links arbitrary: ss cs chs s)
  case Nil
  then show ?case by simp
next
  case (Cons link rest)
  from Cons.prems(1) obtain s0 ss' where ss: "ss = s0 # ss'" and lss: "length ss' = Suc (length rest)"
    by (cases ss) simp_all
  from Cons.prems(2) obtain c cs' where cs: "cs = c # cs'" and lcs: "length cs' = length rest"
    by (cases cs) simp_all
  from Cons.prems(3) ss have s0: "s0 = s" by simp
  have "0 < length (link # rest)" by simp
  with Cons.prems(4) have "\<exists>u s'. chapterUrl ((link # rest) ! 0) = Inr u \<and>
           fetchAllPagesOfStory w u (ss ! 0) = (Inr (cs ! 0), s') \<and>
           ss ! Suc 0 = s'\<lparr>delays := delays s' @ [500]\<rparr>" by blast
  then obtain u s' where u: "chapterUrl link = Inr u"
    and fa: "fetchAllPagesOfStory w u s = (Inr c, s')"
    and nx: "ss' ! 0 = s'\<lparr>delays := delays s' @ [500]\<rparr>"
    using ss cs s0 by auto
  let ?ch = "\<lparr>title = trim (textContent link), content = c\<rparr>"
  have rest: "\<forall>i<length rest. \<exists>u s'. chapterUrl (rest ! i) = Inr u \<and>
           fetchAllPagesOfStory w u (ss' ! i) = (Inr (cs' ! i), s') \<and>
           ss' ! Suc i = s'\<lparr>delays := delays s' @ [500]\<rparr>"
  proof (intro allI impI)
    fix i assume "i < length rest"
    then have "Suc i < length (link # rest)" by simp
    with Cons.prems(4) have "\<exists>u s'. chapterUrl ((link # rest) ! Suc i) = Inr u \<and>
           fetchAllPagesOfStory w u (ss ! Suc i) = (Inr (cs ! Suc i), s') \<and>
           ss ! Suc (Suc i) = s'\<lparr>delays := delays s' @ [500]\<rparr>" by blast
    then show "\<exists>u s'. chapterUrl (rest ! i) = Inr u \<and>
           fetchAllPagesOfStory w u (ss' ! i) = (Inr (cs' ! i), s') \<and>
           ss' ! Suc i = s'\<lparr>delays := delays s' @ [500]\<rparr>"
      by (simp add: ss cs)
  qed
  have "processSeries_loop w rest (chs @ [?ch]) (ss' ! 0) =
     (Inr ((chs @ [?ch]) @
           map (\<lambda>i. \<lparr>title = trim (textContent (rest ! i)), content = cs' ! i\<rparr>) [0..<length rest]),
      ss' ! length rest)"
    using lss lcs refl rest by (rule Cons.IH)
  moreover have "processSeries_loop w (link # rest) chs s =
      processSeries_loop w rest (chs @ [?ch]) (ss' ! 0)"
    using u fa nx by simp
  moreover have "map (\<lambda>i. \<lparr>title = trim (textContent ((link # rest) ! i)), content = (c # cs') ! i\<rparr>)
        [0..<length (link # rest)] =
      ?ch # map (\<lambda>i. \<lparr>title = trim (textContent (rest ! i)), content = cs' ! i\<rparr>) [0..<length rest]"
    by (simp add: map_upt_Suc del: upt_Suc)
  ultimately show ?case by (simp add: ss cs del: upt_Suc)
qed

lemma chapterUrl_href:
  "href link = Some h \<Longrightarrow>
   chapterUrl link = Inr (if startsWith h ''http'' then h else ''https://www.literotica.com'' @ h)"
  by (simp add: chapterUrl_def SITE_ORIGIN_def)

text \<open>
  C7, as the claim states it: a series page with one matching element, which has no \<open>href\<close>,
  is fetched, and the run yields neither an entry nor the error of the missing chapters: it
  ends with the \<^verbatim>\<open>TypeError\<close> of calling \<^verbatim>\<open>startsWith\<close> on \<^verbatim>\<open>null\<close>.
\<close>

theorem series_without_href_counterexample:
  "length (querySelectorAll page_without_href ''.series__works .br_rj'') = 1 \<and>
   fst (fetchPage without_href_world ''https://www.literotica.com/series/se/123'' start_state) =
     Inr page_without_href \<and>
   fst (processSeries without_href_world ''https://www.literotica.com/series/se/123'' start_state) =
     Inl TypeError"
proof -
  let ?u = "''https://www.literotica.com/series/se/123''"
  have links: "querySelectorAll page_without_href ''.series__works .br_rj'' =
      [\<lparr>textContent = ''Ch 1'', innerHTML = ''Ch 1'', className = ''br_rj'',
        elem_title = [], href = None\<rparr>]"
    by (simp add: querySelectorAll_def page_without_href_def)
  have "\<not> cloudflare page_without_href"
    by (simp add: cloudflare_def page_without_href_def)
  then have fp: "fetchPage without_href_world ?u start_state =
      (Inr page_without_href, start_state\<lparr>requests := requests start_state @
         [targetUrl ?u (clock without_href_world (length (requests start_state)))]\<rparr>)"
    by (intro fetchPage_ok [where st = 200]) (simp add: without_href_world_def)
  have "fst (processSeries without_href_world ?u start_state) = Inl TypeError"
    by (simp add: processSeries_def fp links Let_def chapterUrl_def)
  with fp links show ?thesis by simp
qed

text \<open>
  C7, amended: when the series page has been fetched, the run fails with the error of the
  missing chapters exactly when no element matches the selector of the chapter links. The
  address of a link that has an \<open>href\<close> is the \<open>href\<close> itself when it starts with \<open>http\<close> and
  the site origin followed by the \<open>href\<close> otherwise (so for every root-relative \<open>href\<close>), and
  starts with \<open>http\<close> in both cases. When the run gives an archive, it is made of exactly
  one chapter for each of the \<open>M\<close> links, in document order, with the trimmed text of the
  link as its title and the pages fetched from the address of the link as its content. And
  when there is a link, every link has an \<open>href\<close> and the pagination of each chapter in
  turn, from the address of its link and in the state the chapter before has left (\<open>ss ! i\<close>),
  gives a content (\<open>cs ! i\<close>), the run gives the archive of exactly these \<open>M\<close> chapters, in
  document order.
\<close>

theorem processSeries_enumeration:
  assumes "fetchPage w url s = (Inr doc, s1)"
    and "querySelectorAll doc ''.series__works .br_rj'' = links"
  shows "(fst (processSeries w url s) = Inl (Error ''No chapters found on series page.'') \<longleftrightarrow> links = []) \<and>
    (\<forall>link h. href link = Some h \<longrightarrow>
       (\<exists>u. chapterUrl link = Inr u \<and> startsWith u ''http'' \<and>
            (startsWith h ''http'' \<longrightarrow> u = h) \<and>
            (\<not> startsWith h ''http'' \<longrightarrow> u = ''https://www.literotica.com'' @ h) \<and>
            (startsWith h ''/'' \<longrightarrow> u = ''https://www.literotica.com'' @ h))) \<and>
    (\<forall>book. fst (processSeries w url s) = Inr book \<longrightarrow>
       (\<exists>chapters.
          book = generateEpub (orElse (trimmedTextOf doc ''h1.headline'') ''Unknown Series'')
                   (orElse (trimmedTextOf doc ''.y_eU'') ''Unknown Author'') chapters \<and>
          length chapters = length links \<and>
          (\<forall>i<length links. title (chapters ! i) = trim (textContent (links ! i)) \<and>
             (\<exists>u si. chapterUrl (links ! i) = Inr u \<and>
                     fst (fetchAllPagesOfStory w u si) = Inr (content (chapters ! i)))))) \<and>
    (links \<noteq> [] \<and> length ss = Suc (length links) \<and> length cs = length links \<and> ss ! 0 = s1 \<and>
     (\<forall>i<length links. \<exists>h s'. href (links ! i) = Some h \<and>
         fetchAllPagesOfStory w (if startsWith h ''http'' then h else ''https://www.literotica.com'' @ h)
           (ss ! i) = (Inr (cs ! i), s') \<and>
         ss ! Suc i = s'\<lparr>delays := delays s' @ [500]\<rparr>) \<longrightarrow>
       processSeries w url s =
         (Inr (generateEpub (orElse (trimmedTextOf doc ''h1.headline'') ''Unknown Series'')
                 (orElse (trimmedTextOf doc ''.y_eU'') ''Unknown Author'')
                 (map (\<lambda>i. \<lparr>title = trim (textContent (links ! i)), content = cs ! i\<rparr>)
                    [0..<length links])),
          ss ! length links))"
proof (intro conjI allI impI)
  let ?T = "orElse (trimmedTextOf doc ''h1.headline'') ''Unknown Series''"
  let ?A = "orElse (trimmedTextOf doc ''.y_eU'') ''Unknown Author''"
  obtain r2 s2 where lp: "processSeries_loop w links [] s1 = (r2, s2)"
    by (cases "processSeries_loop w links [] s1")
  have empty: "fst (processSeries w url s) = Inl (Error ''No chapters found on series page.'')"
    if "links = []"
    using that assms by (simp add: processSeries_def Let_def)
  have full: "fst (processSeries w url s) =
      (case r2 of Inl e \<Rightarrow> Inl e | Inr chapters \<Rightarrow> Inr (generateEpub ?T ?A chapters))"
    if "links \<noteq> []"
    using that assms lp by (simp add: processSeries_def Let_def split: sum.splits)
  show "fst (processSeries w url s) = Inl (Error ''No chapters found on series page.'') \<longleftrightarrow> links = []"
  proof
    assume none: "fst (processSeries w url s) = Inl (Error ''No chapters found on series page.'')"
    show "links = []"
    proof (rule ccontr)
      assume ne: "links \<noteq> []"
      with none full have "r2 = Inl (Error ''No chapters found on series page.'')"
        by (cases r2) simp_all
      with lp series_loop_errors [of w links "[]" s1 "Error ''No chapters found on series page.''" s2]
      show False by (simp add: CONTENT_NOT_FOUND_def)
    qed
  next
    assume "links = []"
    then show "fst (processSeries w url s) = Inl (Error ''No chapters found on series page.'')"
      by (rule empty)
  qed
  {
    fix link :: element and h assume "href link = Some h"
    then show "\<exists>u. chapterUrl link = Inr u \<and> startsWith u ''http'' \<and>
            (startsWith h ''http'' \<longrightarrow> u = h) \<and>
            (\<not> startsWith h ''http'' \<longrightarrow> u = ''https://www.literotica.com'' @ h) \<and>
            (startsWith h ''/'' \<longrightarrow> u = ''https://www.literotica.com'' @ h)"
      by (rule chapterUrl_absolute)
  }
  {
    fix book assume book: "fst (processSeries w url s) = Inr book"
    then have ne: "links \<noteq> []" using empty by auto
    with book full obtain chapters where r2: "r2 = Inr chapters" and b: "book = generateEpub ?T ?A chapters"
      by (cases r2) simp_all
    from series_loop_result [of w links "[]" s1 chapters s2] lp r2
    have "length chapters = length links \<and>
          (\<forall>i<length links. title (chapters ! i) = trim (textContent (links ! i)) \<and>
             (\<exists>u si. chapterUrl (links ! i) = Inr u \<and>
                     fst (fetchAllPagesOfStory w u si) = Inr (content (chapters ! i))))"
      by auto
    with b show "\<exists>chapters. book = generateEpub ?T ?A chapters \<and>
          length chapters = length links \<and>
          (\<forall>i<length links. title (chapters ! i) = trim (textContent (links ! i)) \<and>
             (\<exists>u si. chapterUrl (links ! i) = Inr u \<and>
                     fst (fetchAllPagesOfStory w u si) = Inr (content (chapters ! i))))"
      by blast
  }
  {
    assume h: "links \<noteq> [] \<and> length ss = Suc (length links) \<and> length cs = length links \<and> ss ! 0 = s1 \<and>
     (\<forall>i<length links. \<exists>h s'. href (links ! i) = Some h \<and>
         fetchAllPagesOfStory w (if startsWith h ''http'' then h else ''https://www.literotica.com'' @ h)
           (ss ! i) = (Inr (cs ! i), s') \<and>
         ss ! Suc i = s'\<lparr>delays := delays s' @ [500]\<rparr>)"
    note ne = h [THEN conjunct1]
    note lss = h [THEN conjunct2, THEN conjunct1]
    note lcs = h [THEN conjunct2, THEN conjunct2, THEN conjunct1]
    note s0 = h [THEN conjunct2, THEN conjunct2, THEN conjunct2, THEN conjunct1]
    note each = h [THEN conjunct2, THEN conjunct2, THEN conjunct2, THEN conjunct2]
    have chain: "\<forall>i<length links. \<exists>u s'. chapterUrl (links ! i) = Inr u \<and>
           fetchAllPagesOfStory w u (ss ! i) = (Inr (cs ! i), s') \<and>
           ss ! Suc i = s'\<lparr>delays := delays s' @ [500]\<rparr>"
    proof (intro allI impI)
      fix i assume "i < length links"
      with each obtain h s' where hr: "href (links ! i) = Some h"
        and fa: "fetchAllPagesOfStory w (if startsWith h ''http'' then h else ''https://www.literotica.com'' @ h)
           (ss ! i) = (Inr (cs ! i), s')"
        and nx: "ss ! Suc i = s'\<lparr>delays := delays s' @ [500]\<rparr>"
        by blast
      from chapterUrl_href [OF hr] fa nx
      show "\<exists>u s'. chapterUrl (links ! i) = Inr u \<and>
           fetchAllPagesOfStory w u (ss ! i) = (Inr (cs ! i), s') \<and>
           ss ! Suc i = s'\<lparr>delays := delays s' @ [500]\<rparr>"
        by blast
    qed
    have "processSeries_loop w links [] s1 =
       (Inr ([] @ map (\<lambda>i. \<lparr>title = trim (textContent (links ! i)), content = cs ! i\<rparr>) [0..<length links]),
        ss ! length links)"
      using lss lcs s0 chain by (rule series_loop_chain)
    with ne assms show "processSeries w url s =
         (Inr (generateEpub ?T ?A
                 (map (\<lambda>i. \<lparr>title = trim (textContent (links ! i)), content = cs ! i\<rparr>)
                    [0..<length links])),
          ss ! length links)"
      by (simp add: processSeries_def Let_def del: upt_Suc)
  }
qed

lemma series_world_pagination:
  assumes "1 \<le> length (requests s')"
  shows "fetchAllPagesOfStory series_world u s' =
     (Inr ''<p>two</p>'',
      s'\<lparr>requests := requests s' @
         [targetUrl (currentUrl (split_first u) 1) (clock series_world (length (requests s')))]\<rparr>)"
proof -
  let ?b = "split_first u"
  let ?t = "targetUrl (currentUrl ?b 1) (clock series_world (length (requests s')))"
  have "length (requests s') \<noteq> 0" using assms by arith
  then have "net series_world (length (requests s')) ?t = Response True 200 last_page"
    by (simp only: series_world_def world.select_convs if_False)
  then have "fetchPage series_world (currentUrl ?b 1) s' =
      (Inr last_page, s'\<lparr>requests := requests s' @ [?t]\<rparr>)"
    using pages_not_cloudflare(2) by (rule fetchPage_ok)
  then have "fetchAllPagesOfStory_loop series_world ?b 1 [] True s' =
      (Inr (nextHtml 1 [] ''<p>two</p>''), s'\<lparr>requests := requests s' @ [?t]\<rparr>)"
    using last_page_content last_page_next by (intro loop_last) (simp_all add: MAX_PAGES_def)
  then show ?thesis by (simp add: fetchAllPagesOfStory_def nextHtml_def)
qed

theorem processSeries_enumeration_witness:
  "chapterUrl first_link = Inr ''https://www.literotica.com/s/ch-1'' \<and>
   chapterUrl second_link = Inr ''https://www.literotica.com/s/ch-2'' \<and>
   fst (processSeries series_world ''https://www.literotica.com/series/se/123'' start_state) =
     Inr (generateEpub ''Unknown Series'' ''Unknown Author''
            [\<lparr>title = ''Ch 1'', content = ''<p>two</p>''\<rparr>, \<lparr>title = ''Ch 2'', content = ''<p>two</p>''\<rparr>])"
proof -
  let ?u = "''https://www.literotica.com/series/se/123''"
  let ?u1 = "''https://www.literotica.com/s/ch-1''"
  let ?u2 = "''https://www.literotica.com/s/ch-2''"
  define s1 where "s1 = start_state\<lparr>requests := requests start_state @
         [targetUrl ?u (clock series_world (length (requests start_state)))]\<rparr>"
  define p1 where "p1 = s1\<lparr>requests := requests s1 @
         [targetUrl (currentUrl (split_first ?u1) 1) (clock series_world (length (requests s1)))]\<rparr>"
  define s2 where "s2 = p1\<lparr>delays := delays p1 @ [500]\<rparr>"
  define p2 where "p2 = s2\<lparr>requests := requests s2 @
         [targetUrl (currentUrl (split_first ?u2) 1) (clock series_world (length (requests s2)))]\<rparr>"
  define s3 where "s3 = p2\<lparr>delays := delays p2 @ [500]\<rparr>"
  have links: "querySelectorAll series_page ''.series__works .br_rj'' = [first_link, second_link]"
    by (simp add: querySelectorAll_def series_page_def)
  have "\<not> cloudflare series_page" by (simp add: cloudflare_def series_page_def)
  then have fp: "fetchPage series_world ?u start_state = (Inr series_page, s1)"
    unfolding s1_def by (intro fetchPage_ok [where st = 200]) (simp add: series_world_def start_state_def)
  note inst = processSeries_enumeration [OF fp links, of "[s1, s2, s3]" "[''<p>two</p>'', ''<p>two</p>'']"]
  note addr = inst [THEN conjunct2, THEN conjunct1, rule_format]
  note gives = inst [THEN conjunct2, THEN conjunct2, THEN conjunct2, THEN mp]
  have h1: "href first_link = Some ''/s/ch-1''" by (simp add: first_link_def)
  have h2: "href second_link = Some ''https://www.literotica.com/s/ch-2''" by (simp add: second_link_def)
  from addr [OF h1] obtain u1 where a1: "chapterUrl first_link = Inr u1 \<and> startsWith u1 ''http'' \<and>
      (startsWith ''/s/ch-1'' ''http'' \<longrightarrow> u1 = ''/s/ch-1'') \<and>
      (\<not> startsWith ''/s/ch-1'' ''http'' \<longrightarrow> u1 = ''https://www.literotica.com'' @ ''/s/ch-1'') \<and>
      (startsWith ''/s/ch-1'' ''/'' \<longrightarrow> u1 = ''https://www.literotica.com'' @ ''/s/ch-1'')" ..
  then have url1: "chapterUrl first_link = Inr ?u1"
    by (simp add: startsWith_def)
  from addr [OF h2] obtain u2 where a2: "chapterUrl second_link = Inr u2 \<and> startsWith u2 ''http'' \<and>
      (startsWith ?u2 ''http'' \<longrightarrow> u2 = ?u2) \<and>
      (\<not> startsWith ?u2 ''http'' \<longrightarrow> u2 = ''https://www.literotica.com'' @ ?u2) \<and>
      (startsWith ?u2 ''/'' \<longrightarrow> u2 = ''https://www.literotica.com'' @ ?u2)" ..
  then have url2: "chapterUrl second_link = Inr ?u2"
    by (simp add: startsWith_def)
  have l1: "1 \<le> length (requests s1)" by (simp add: s1_def)
  have l2: "1 \<le> length (requests s2)" by (simp add: s2_def p1_def)
  have f1: "fetchAllPagesOfStory series_world ?u1 s1 = (Inr ''<p>two</p>'', p1)"
    unfolding p1_def by (rule series_world_pagination [OF l1])
  have f2: "fetchAllPagesOfStory series_world ?u2 s2 = (Inr ''<p>two</p>'', p2)"
    unfolding p2_def by (rule series_world_pagination [OF l2])
  have c1: "\<exists>h s'. href first_link = Some h \<and>
         fetchAllPagesOfStory series_world (if startsWith h ''http'' then h else ''https://www.literotica.com'' @ h)
           s1 = (Inr ''<p>two</p>'', s') \<and> s2 = s'\<lparr>delays := delays s' @ [500]\<rparr>"
    using h1 f1 by (intro exI [of _ "''/s/ch-1''"] exI [of _ p1]) (simp add: startsWith_def s2_def)
  have c2: "\<exists>h s'. href second_link = Some h \<and>
         fetchAllPagesOfStory series_world (if startsWith h ''http'' then h else ''https://www.literotica.com'' @ h)
           s2 = (Inr ''<p>two</p>'', s') \<and> s3 = s'\<lparr>delays := delays s' @ [500]\<rparr>"
    using h2 f2 by (intro exI [of _ ?u2] exI [of _ p2]) (simp add: startsWith_def s3_def)
  have each: "\<forall>i<length [first_link, second_link]. \<exists>h s'. href ([first_link, second_link] ! i) = Some h \<and>
         fetchAllPagesOfStory series_world (if startsWith h ''http'' then h else ''https://www.literotica.com'' @ h)
           ([s1, s2, s3] ! i) = (Inr ([''<p>two</p>'', ''<p>two</p>''] ! i), s') \<and>
         [s1, s2, s3] ! Suc i = s'\<lparr>delays := delays s' @ [500]\<rparr>"
  proof (intro allI impI)
    fix i assume "i < length [first_link, second_link]"
    then have "i = 0 \<or> i = 1" by auto
    then show "\<exists>h s'. href ([first_link, second_link] ! i) = Some h \<and>
         fetchAllPagesOfStory series_world (if startsWith h ''http'' then h else ''https://www.literotica.com'' @ h)
           ([s1, s2, s3] ! i) = (Inr ([''<p>two</p>'', ''<p>two</p>''] ! i), s') \<and>
         [s1, s2, s3] ! Suc i = s'\<lparr>delays := delays s' @ [500]\<rparr>"
    proof
      assume "i = 0"
      with c1 show ?thesis by simp
    next
      assume "i = 1"
      with c2 show ?thesis by simp
    qed
  qed
  have res: "processSeries series_world ?u start_state =
         (Inr (generateEpub (orElse (trimmedTextOf series_page ''h1.headline'') ''Unknown Series'')
                 (orElse (trimmedTextOf series_page ''.y_eU'') ''Unknown Author'')
                 (map (\<lambda>i. \<lparr>title = trim (textContent ([first_link, second_link] ! i)),
                             content = [''<p>two</p>'', ''<p>two</p>''] ! i\<rparr>)
                    [0..<length [first_link, second_link]])),
          [s1, s2, s3] ! length [first_link, second_link])"
  proof (rule gives, intro conjI)
    show "[first_link, second_link] \<noteq> []" by simp
    show "length [s1, s2, s3] = Suc (length [first_link, second_link])" by simp
    show "length [''<p>two</p>'', ''<p>two</p>''] = length [first_link, second_link]" by simp
    show "[s1, s2, s3] ! 0 = s1" by simp
    show "\<forall>i<length [first_link, second_link]. \<exists>h s'. href ([first_link, second_link] ! i) = Some h \<and>
         fetchAllPagesOfStory series_world (if startsWith h ''http'' then h else ''https://www.literotica.com'' @ h)
           ([s1, s2, s3] ! i) = (Inr ([''<p>two</p>'', ''<p>two</p>''] ! i), s') \<and>
         [s1, s2, s3] ! Suc i = s'\<lparr>delays := delays s' @ [500]\<rparr>" by (rule each)
  qed
  have names: "orElse (trimmedTextOf series_page ''h1.headline'') ''Unknown Series'' = ''Unknown Series''"
    "orElse (trimmedTextOf series_page ''.y_eU'') ''Unknown Author'' = ''Unknown Author''"
    by (simp_all add: orElse_def trimmedTextOf_def querySelector_def series_page_def)
  have titles: "trim (textContent first_link) = ''Ch 1''" "trim (textContent second_link) = ''Ch 2''"
    by (simp_all add: first_link_def second_link_def trim_def isWhiteSpace_def)
  have chapters: "map (\<lambda>i. \<lparr>title = trim (textContent ([first_link, second_link] ! i)),
                             content = [''<p>two</p>'', ''<p>two</p>''] ! i\<rparr>)
                    [0..<length [first_link, second_link]] =
      [\<lparr>title = ''Ch 1'', content = ''<p>two</p>''\<rparr>, \<lparr>title = ''Ch 2'', content = ''<p>two</p>''\<rparr>]"
    by (simp add: titles upt_rec)
  have "fst (processSeries series_world ?u start_state) =
     Inr (generateEpub ''Unknown Series'' ''Unknown Author''
            [\<lparr>title = ''Ch 1'', content = ''<p>two</p>''\<rparr>, \<lparr>title = ''Ch 2'', content = ''<p>two</p>''\<rparr>])"
    unfolding res names chapters by (simp only: fst_conv)
  with url1 url2 show ?thesis by (intro conjI)
qed

end
